theory Spec2Isabelle
  imports Main
begin

section \<open>Python strings\<close>

text \<open>
  A Python \<open>str\<close> is a sequence of Unicode code points, and \<open>len\<close> counts code points.
  Two of the sentence delimiters of \<open>config.py\<close> are Arabic punctuation (U+061F and
  U+060C), outside the 8-bit \<open>char\<close> of HOL, so a string is modelled as the list of its
  code points. \<open>str\<close> turns an ASCII literal into such a list.
\<close>

type_synonym pystr = "nat list"

definition str :: "string \<Rightarrow> pystr" where
  "str s = map of_char s"

text \<open>\<open>s.startswith(d)\<close>, used here to test for an occurrence of \<open>d\<close> at a position.\<close>

fun startswith :: "pystr \<Rightarrow> pystr \<Rightarrow> bool" where
  "startswith s [] = True"
| "startswith [] (d # ds) = False"
| "startswith (c # cs) (d # ds) = (c = d \<and> startswith cs ds)"

text \<open>
  \<open>s.rfind(d)\<close>: the highest index at which \<open>d\<close> occurs in \<open>s\<close>, and \<open>-1\<close> when it does
  not occur. The scan runs left to right from index \<open>i\<close> and keeps the last match.
\<close>

fun rfind_from :: "pystr \<Rightarrow> pystr \<Rightarrow> int \<Rightarrow> int \<Rightarrow> int" where
  "rfind_from [] d i found = (if d = [] then i else found)"
| "rfind_from (c # cs) d i found =
     rfind_from cs d (i + 1) (if startswith (c # cs) d then i else found)"

definition rfind :: "pystr \<Rightarrow> pystr \<Rightarrow> int" where
  "rfind s d = rfind_from s d 0 (- 1)"

text \<open>
  The slices \<open>s[:k]\<close> and \<open>s[k:]\<close>. A negative bound counts from the end of the string and
  is clamped at its start (\<open>nat\<close> of a negative number is \<open>0\<close>).
\<close>

definition slice_to :: "pystr \<Rightarrow> int \<Rightarrow> pystr" where
  "slice_to s k = (if 0 \<le> k then take (nat k) s else take (nat (int (length s) + k)) s)"

definition slice_from :: "pystr \<Rightarrow> int \<Rightarrow> pystr" where
  "slice_from s k = (if 0 \<le> k then drop (nat k) s else drop (nat (int (length s) + k)) s)"

section \<open>Configuration (config.py)\<close>

definition MAX_CHUNK_SIZE :: int where
  "MAX_CHUNK_SIZE = 500"

definition MAX_RETRIES :: nat where
  "MAX_RETRIES = 5"

definition TRANSLATION_SUFFIX :: pystr where
  "TRANSLATION_SUFFIX = str ''-en''"

text \<open>
  \<open>SENTENCE_DELIMITERS\<close>, in the order of the tuple: period-space, period-newline, Arabic
  question mark-space, exclamation-space, Arabic comma-space, two newlines, one newline.
\<close>

definition SENTENCE_DELIMITERS :: "pystr list" where
  "SENTENCE_DELIMITERS =
     [[46, 32], [46, 10], [1567, 32], [33, 32], [1548, 32], [10, 10], [10]]"

text \<open>
  \<open>int(max_size * config.MIN_CHUNK_RATIO)\<close> with \<open>MIN_CHUNK_RATIO = 0.5\<close>. Halving is exact
  in binary floating point for every integer below \<open>2^53\<close>, and \<open>int\<close> truncates towards
  zero.
\<close>

definition min_position :: "int \<Rightarrow> int" where
  "min_position max_size = (if 0 \<le> max_size then max_size div 2 else - ((- max_size) div 2))"

section \<open>TextChunker (translate\_json.py)\<close>

text \<open>
  The \<open>for delimiter in config.SENTENCE_DELIMITERS\<close> loop of \<open>_find_break_point\<close>: the first
  delimiter, in the order of the tuple, whose last occurrence lies beyond the minimum
  position gives the break point; with no such delimiter the result is \<open>max_size\<close>.
\<close>

fun scan_delimiters :: "pystr list \<Rightarrow> pystr \<Rightarrow> int \<Rightarrow> int \<Rightarrow> int" where
  "scan_delimiters [] chunk min_pos max_size = max_size"
| "scan_delimiters (delimiter # rest) chunk min_pos max_size =
     (let pos = rfind chunk delimiter in
      if pos > min_pos then pos + int (length delimiter)
      else scan_delimiters rest chunk min_pos max_size)"

definition find_break_point :: "pystr \<Rightarrow> int \<Rightarrow> int" where
  "find_break_point chunk max_size =
     scan_delimiters SENTENCE_DELIMITERS chunk (min_position max_size) max_size"

text \<open>
  The \<open>while remaining:\<close> loop of \<open>chunk_text\<close>, with the list \<open>chunks\<close> built so far. The
  loop of the source does not return for every \<open>max_size\<close> (with \<open>max_size = 0\<close> the break
  point is \<open>0\<close> and \<open>remaining\<close> never shrinks), so the model is a partial function and
  \<open>None\<close> stands for a loop that runs forever.
\<close>

partial_function (option) chunk_loop :: "int \<Rightarrow> pystr \<Rightarrow> pystr list \<Rightarrow> pystr list option" where
  "chunk_loop max_size remaining chunks =
     (if remaining = [] then Some chunks
      else if int (length remaining) \<le> max_size then Some (chunks @ [remaining])
      else
        (let chunk = slice_to remaining max_size;
             break_point = find_break_point chunk max_size
         in chunk_loop max_size (slice_from remaining break_point)
              (chunks @ [slice_to remaining break_point])))"

definition chunk_text :: "pystr \<Rightarrow> int \<Rightarrow> pystr list option" where
  "chunk_text text max_size =
     (if int (length text) \<le> max_size then Some [text]
      else chunk_loop max_size text [])"

text \<open>
  \<open>s.endswith(suffix)\<close>, \<open>sep.join(parts)\<close> and \<open>s.strip()\<close>. \<open>strip\<close> removes the
  characters for which \<open>str.isspace\<close> holds from both ends; \<open>is_space\<close> lists them.
\<close>

definition endswith :: "pystr \<Rightarrow> pystr \<Rightarrow> bool" where
  "endswith s suffix =
     (length suffix \<le> length s \<and> drop (length s - length suffix) s = suffix)"

fun join :: "pystr \<Rightarrow> pystr list \<Rightarrow> pystr" where
  "join sep [] = []"
| "join sep [x] = x"
| "join sep (x # y # ys) = x @ sep @ join sep (y # ys)"

definition is_space :: "nat \<Rightarrow> bool" where
  "is_space c =
     (c \<in> set [9, 10, 11, 12, 13, 28, 29, 30, 31, 32, 133, 160, 5760, 8192, 8193, 8194,
                8195, 8196, 8197, 8198, 8199, 8200, 8201, 8202, 8232, 8233, 8239, 8287,
                12288])"

definition strip :: "pystr \<Rightarrow> pystr" where
  "strip s = rev (dropWhile is_space (rev (dropWhile is_space s)))"

text \<open>
  \<open>s.lower()\<close> on the ASCII letters. The full case mapping of Unicode is not modelled; the
  only use of \<open>lower\<close> is the membership test in the set of non-translatable literals
  below. The members of that set are ASCII, and the one character outside ASCII whose
  lowercase is ASCII is the Kelvin sign, lowered to the letter k, which is in none of
  them: the test has the same result.
\<close>

definition lower :: "pystr \<Rightarrow> pystr" where
  "lower s = map (\<lambda>c. if 65 \<le> c \<and> c \<le> 90 then c + 32 else c) s"

section \<open>The remote provider and the Translator (translate\_json.py)\<close>

text \<open>
  The exceptions of the model. \<open>ProviderError\<close> is whatever the remote call raises;
  \<open>LoadError\<close> is a file that cannot be opened or parsed; \<open>TypeError\<close> and
  \<open>AttributeError\<close> are raised on loaded data that is not a list of objects;
  \<open>WriteError\<close> is a file that cannot be opened for writing, or the failure of
  \<open>json.dump\<close> on it.
\<close>

datatype exception = ProviderError | LoadError | TypeError | AttributeError | WriteError

text \<open>
  \<open>GoogleTranslator.translate\<close> is outside the repository. A provider is any function
  from the texts it was sent so far and the text of this call to what the call does:
  it raises or returns a string. The translator's state is that log of texts, so the
  number of provider calls is the length by which the log grows.
\<close>

type_synonym provider = "pystr list \<Rightarrow> pystr \<Rightarrow> exception + pystr"

definition call_provider ::
  "provider \<Rightarrow> pystr \<Rightarrow> pystr list \<Rightarrow> (exception + pystr) \<times> pystr list" where
  "call_provider p text calls = (p calls text, calls @ [text])"

text \<open>
  \<open>_translate_single\<close>: the loop \<open>for attempt in range(config.MAX_RETRIES)\<close> from
  \<open>attempt\<close> on. A result of the provider is returned at once; an exception is caught,
  and after the last attempt the text itself is returned.
\<close>

function translate_single_from ::
  "provider \<Rightarrow> pystr \<Rightarrow> nat \<Rightarrow> pystr list \<Rightarrow> (exception + pystr) \<times> pystr list" where
  "translate_single_from p text attempt calls =
     (if attempt < MAX_RETRIES then
        (case call_provider p text calls of
           (Inr result, calls') \<Rightarrow> (Inr result, calls')
         | (Inl e, calls') \<Rightarrow>
             if attempt < MAX_RETRIES - 1 then translate_single_from p text (attempt + 1) calls'
             else (Inr text, calls'))
      else (Inr text, calls))"
  by pat_completeness auto
termination
  by (relation "measure (\<lambda>(p, text, attempt, calls). MAX_RETRIES - attempt)") auto

declare translate_single_from.simps [simp del]

definition translate_single ::
  "provider \<Rightarrow> pystr \<Rightarrow> pystr list \<Rightarrow> (exception + pystr) \<times> pystr list" where
  "translate_single p text calls = translate_single_from p text 0 calls"

text \<open>
  \<open>_translate_chunks\<close>: the inner loop over the attempts for one chunk appends the
  provider's result, or the chunk itself after the last failed attempt, to
  \<open>translated_chunks\<close>; the outer loop runs over the chunks; the results are joined by a
  single space.
\<close>

function translate_chunk_from ::
  "provider \<Rightarrow> pystr \<Rightarrow> nat \<Rightarrow> pystr list \<Rightarrow> pystr list \<Rightarrow> pystr list \<times> pystr list" where
  "translate_chunk_from p chunk attempt translated_chunks calls =
     (if attempt < MAX_RETRIES then
        (case call_provider p chunk calls of
           (Inr result, calls') \<Rightarrow> (translated_chunks @ [result], calls')
         | (Inl e, calls') \<Rightarrow>
             if attempt < MAX_RETRIES - 1
             then translate_chunk_from p chunk (attempt + 1) translated_chunks calls'
             else (translated_chunks @ [chunk], calls'))
      else (translated_chunks, calls))"
  by pat_completeness auto
termination
  by (relation "measure (\<lambda>(p, chunk, attempt, tc, calls). MAX_RETRIES - attempt)") auto

declare translate_chunk_from.simps [simp del]

fun translate_chunks_loop ::
  "provider \<Rightarrow> pystr list \<Rightarrow> pystr list \<Rightarrow> pystr list \<Rightarrow> pystr list \<times> pystr list" where
  "translate_chunks_loop p [] translated_chunks calls = (translated_chunks, calls)"
| "translate_chunks_loop p (chunk # rest) translated_chunks calls =
     (case translate_chunk_from p chunk 0 translated_chunks calls of
        (translated_chunks', calls') \<Rightarrow> translate_chunks_loop p rest translated_chunks' calls')"

definition translate_chunks ::
  "provider \<Rightarrow> pystr list \<Rightarrow> pystr list \<Rightarrow> (exception + pystr) \<times> pystr list" where
  "translate_chunks p chunks calls =
     (case translate_chunks_loop p chunks [] calls of
        (translated_chunks, calls') \<Rightarrow> (Inr (join (str '' '') translated_chunks), calls'))"

text \<open>
  \<open>Translator.translate\<close> on a string. The result is \<open>None\<close> when the chunker does not
  return, \<open>Inl\<close> an exception that reaches the caller, \<open>Inr\<close> the returned text.
\<close>

definition translate ::
  "provider \<Rightarrow> pystr \<Rightarrow> pystr list \<Rightarrow> ((exception + pystr) \<times> pystr list) option" where
  "translate p text calls =
     (if text = [] \<or> strip text = [] then Some (Inr text, calls)
      else
        (case chunk_text text MAX_CHUNK_SIZE of
           None \<Rightarrow> None
         | Some chunks \<Rightarrow>
             if length chunks = 1 then Some (translate_single p text calls)
             else Some (translate_chunks p chunks calls)))"

section \<open>Records and the translation pass (JSONTranslator.\_process\_item)\<close>

text \<open>
  A loaded JSON value. Numbers are not inspected by any pass and stand as integers. An
  object is a Python \<open>dict\<close>: its entries in insertion order, which is the order of
  \<open>item.items()\<close> and of the file written back.
\<close>

datatype jvalue =
  JStr pystr | JNum int | JBool bool | JNull | JArr "jvalue list" | JObj "(pystr \<times> jvalue) list"

type_synonym dict = "(pystr \<times> jvalue) list"

definition dict_has :: "dict \<Rightarrow> pystr \<Rightarrow> bool" where
  "dict_has d k = (k \<in> set (map fst d))"

definition dict_get :: "dict \<Rightarrow> pystr \<Rightarrow> jvalue option" where
  "dict_get d k = map_of d k"

text \<open>\<open>d[k] = v\<close>: an existing key keeps its place, a new key goes to the end.\<close>

fun dict_set :: "dict \<Rightarrow> pystr \<Rightarrow> jvalue \<Rightarrow> dict" where
  "dict_set [] k v = [(k, v)]"
| "dict_set ((k', v') # rest) k v =
     (if k' = k then (k, v) # rest else (k', v') # dict_set rest k v)"

record TranslationStats =
  total_items :: nat
  translated_fields :: nat
  skipped_fields :: nat
  failed_fields :: nat

definition new_stats :: TranslationStats where
  "new_stats =
     \<lparr>total_items = 0, translated_fields = 0, skipped_fields = 0, failed_fields = 0\<rparr>"

text \<open>
  The loop of \<open>_process_item\<close> over the snapshot \<open>list(item.items())\<close>, on the record, the
  statistics and the provider log as they are when the field is reached. An exception
  of \<open>translate\<close> would leave the loop with the state reached so far.
\<close>

fun process_fields ::
  "provider \<Rightarrow> dict \<Rightarrow> dict \<Rightarrow> TranslationStats \<Rightarrow> pystr list \<Rightarrow>
     ((exception + unit) \<times> dict \<times> TranslationStats \<times> pystr list) option" where
  "process_fields p [] item stats calls = Some (Inr (), item, stats, calls)"
| "process_fields p ((key, val) # rest) item stats calls =
     (if endswith key TRANSLATION_SUFFIX then process_fields p rest item stats calls
      else
        (case val of
           JStr v \<Rightarrow>
             if strip v = [] then process_fields p rest item stats calls
             else
               (let en_key = key @ TRANSLATION_SUFFIX in
                if dict_has item en_key then
                  process_fields p rest item
                    (stats\<lparr>skipped_fields := skipped_fields stats + 1\<rparr>) calls
                else
                  (case translate p v calls of
                     None \<Rightarrow> None
                   | Some (Inl e, calls') \<Rightarrow> Some (Inl e, item, stats, calls')
                   | Some (Inr translated, calls') \<Rightarrow>
                       process_fields p rest (dict_set item en_key (JStr translated))
                         (if translated \<noteq> v
                          then stats\<lparr>translated_fields := translated_fields stats + 1\<rparr>
                          else stats\<lparr>failed_fields := failed_fields stats + 1\<rparr>)
                         calls'))
         | _ \<Rightarrow> process_fields p rest item stats calls))"

definition process_item ::
  "provider \<Rightarrow> dict \<Rightarrow> TranslationStats \<Rightarrow> pystr list \<Rightarrow>
     ((exception + unit) \<times> dict \<times> TranslationStats \<times> pystr list) option" where
  "process_item p item stats calls = process_fields p item item stats calls"

text \<open>
  The fields that pass the two guards at the head of the loop body, in \<open>_process_item\<close>
  and \<open>_retry_file\<close> alike: the key does not end in the suffix, and the value is a
  string that is not blank.
\<close>

definition is_source_field :: "pystr \<times> jvalue \<Rightarrow> bool" where
  "is_source_field kv =
     (\<not> endswith (fst kv) TRANSLATION_SUFFIX \<and>
      (case snd kv of JStr v \<Rightarrow> strip v \<noteq> [] | _ \<Rightarrow> False))"

text \<open>
  The fields that \<open>_process_item\<close> translates are the source fields whose derived key is
  absent from the record; \<open>fits_one_chunk\<close> tells the values that \<open>chunk_text\<close> leaves
  whole, those of at most \<open>MAX_CHUNK_SIZE\<close> characters.
\<close>

definition to_translate :: "dict \<Rightarrow> pystr \<times> jvalue \<Rightarrow> bool" where
  "to_translate item kv =
     (is_source_field kv \<and> \<not> dict_has item (fst kv @ TRANSLATION_SUFFIX))"

definition fits_one_chunk :: "pystr \<times> jvalue \<Rightarrow> bool" where
  "fits_one_chunk kv =
     (case snd kv of JStr v \<Rightarrow> int (length v) \<le> MAX_CHUNK_SIZE | _ \<Rightarrow> False)"

section \<open>The retry pass (TranslationRetrier.\_retry\_file)\<close>

text \<open>
  The inner loop of \<open>_retry_file\<close> over the snapshot of one record: a field is retried
  when its derived field is present and equal to the field's value, and the derived
  field is overwritten, and \<open>modified\<close> set, only when the new result differs.
\<close>

fun retry_fields ::
  "provider \<Rightarrow> dict \<Rightarrow> dict \<Rightarrow> nat \<Rightarrow> nat \<Rightarrow> bool \<Rightarrow> pystr list \<Rightarrow>
     ((exception + unit) \<times> dict \<times> nat \<times> nat \<times> bool \<times> pystr list) option" where
  "retry_fields p [] item fields_retried fields_fixed modified calls =
     Some (Inr (), item, fields_retried, fields_fixed, modified, calls)"
| "retry_fields p ((key, val) # rest) item fields_retried fields_fixed modified calls =
     (if endswith key TRANSLATION_SUFFIX
      then retry_fields p rest item fields_retried fields_fixed modified calls
      else
        (case val of
           JStr v \<Rightarrow>
             if strip v = []
             then retry_fields p rest item fields_retried fields_fixed modified calls
             else
               (let en_key = key @ TRANSLATION_SUFFIX in
                if dict_has item en_key \<and> dict_get item en_key = Some (JStr v) then
                  (case translate p v calls of
                     None \<Rightarrow> None
                   | Some (Inl e, calls') \<Rightarrow>
                       Some (Inl e, item, fields_retried + 1, fields_fixed, modified, calls')
                   | Some (Inr translated, calls') \<Rightarrow>
                       if translated \<noteq> v then
                         retry_fields p rest (dict_set item en_key (JStr translated))
                           (fields_retried + 1) (fields_fixed + 1) True calls'
                       else
                         retry_fields p rest item (fields_retried + 1) fields_fixed modified
                           calls')
                else retry_fields p rest item fields_retried fields_fixed modified calls)
         | _ \<Rightarrow> retry_fields p rest item fields_retried fields_fixed modified calls))"

section \<open>The fixer of non-translatable fields (NonTranslatableFixer.\_fix\_file)\<close>

text \<open>
  The set \<open>NON_TRANSLATABLE_VALUES\<close>: five words and the ten digits, each digit a string of
  one character, given by its code point (\<open>48\<close> is the digit zero).
\<close>

definition NON_TRANSLATABLE_VALUES :: "pystr list" where
  "NON_TRANSLATABLE_VALUES =
     map str [''true'', ''false'', ''null'', ''yes'', ''no''] @
     map (\<lambda>digit. [digit]) [48, 49, 50, 51, 52, 53, 54, 55, 56, 57]"

text \<open>
  The inner loop of \<open>_fix_file\<close> over the snapshot of one record. It takes no provider:
  the fixer never translates.
\<close>

fun fix_fields :: "dict \<Rightarrow> dict \<Rightarrow> bool \<Rightarrow> nat \<Rightarrow> dict \<times> bool \<times> nat" where
  "fix_fields [] item modified fixed_count = (item, modified, fixed_count)"
| "fix_fields ((key, val) # rest) item modified fixed_count =
     (if endswith key TRANSLATION_SUFFIX then fix_fields rest item modified fixed_count
      else
        (case val of
           JStr v \<Rightarrow>
             (let en_key = key @ TRANSLATION_SUFFIX in
              if strip (lower v) \<in> set NON_TRANSLATABLE_VALUES then
                if dict_has item en_key \<and> dict_get item en_key \<noteq> Some (JStr v) then
                  fix_fields rest (dict_set item en_key (JStr v)) True (fixed_count + 1)
                else if \<not> dict_has item en_key then
                  fix_fields rest (dict_set item en_key (JStr v)) True (fixed_count + 1)
                else fix_fields rest item modified fixed_count
              else fix_fields rest item modified fixed_count)
         | _ \<Rightarrow> fix_fields rest item modified fixed_count))"

definition fix_item :: "dict \<Rightarrow> bool \<Rightarrow> nat \<Rightarrow> dict \<times> bool \<times> nat" where
  "fix_item item modified fixed_count = fix_fields item item modified fixed_count"

text \<open>
  The fixer runs without a translator. Taken as a step of the whole system, whose state
  holds the log of the provider calls as well, its loop hands that log on as it found
  it.
\<close>

definition fix_item_with_log ::
  "dict \<Rightarrow> bool \<Rightarrow> nat \<Rightarrow> pystr list \<Rightarrow> (dict \<times> bool \<times> nat) \<times> pystr list" where
  "fix_item_with_log item modified fixed_count calls =
     (fix_item item modified fixed_count, calls)"

section \<open>Files (JSONTranslator.process\_file, TranslationRetrier.\_retry\_file)\<close>

text \<open>
  A \<open>Path\<close> is the sequence of its components, and \<open>file_path.name\<close> the last of them
  (the empty string when there is none).
\<close>

type_synonym path = "pystr list"

definition path_name :: "path \<Rightarrow> pystr" where
  "path_name file_path = (if file_path = [] then [] else last file_path)"

text \<open>
  \<open>json.dump(data, f, ensure_ascii=False)\<close> into a file opened with the encoding
  \<open>utf-8\<close> raises \<open>UnicodeEncodeError\<close> when a key or a string holds a lone surrogate (a
  code point from \<open>U+D800\<close> to \<open>U+DFFF\<close>, which \<open>json.load\<close> reads from an escape).
  \<open>encodable\<close> tells the data that can be written.
\<close>

definition is_surrogate :: "nat \<Rightarrow> bool" where
  "is_surrogate c = (55296 \<le> c \<and> c \<le> 57343)"

fun encodable :: "jvalue \<Rightarrow> bool" where
  "encodable (JStr s) = list_all (\<lambda>c. \<not> is_surrogate c) s"
| "encodable (JArr xs) = list_all encodable xs"
| "encodable (JObj kvs) =
     list_all (\<lambda>kv. list_all (\<lambda>c. \<not> is_surrogate c) (fst kv) \<and> encodable (snd kv)) kvs"
| "encodable (JNum n) = True"
| "encodable (JBool b) = True"
| "encodable JNull = True"

text \<open>
  What the environment does to a write of a file: \<open>open(file_path, 'w')\<close> raises and the
  file stays as it was (\<open>Refuses\<close>); the file is opened, and so emptied, and the write
  fails on the way, a full disk (\<open>Breaks\<close>); or the write is carried through
  (\<open>Completes\<close>).
\<close>

datatype write_outcome = Completes | Breaks | Refuses

text \<open>
  The storage: \<open>contents\<close> gives the value that \<open>json.load\<close> reads from a path, and
  \<open>None\<close> for a path that cannot be opened or parsed; \<open>writes\<close> logs the paths opened for
  writing, in order, so that a file rewritten with the data it already held still
  shows; \<open>on_write\<close> is what the environment does to a write.
\<close>

record filesystem =
  contents :: "path \<Rightarrow> jvalue option"
  writes :: "path list"
  on_write :: "path \<Rightarrow> write_outcome"

text \<open>
  \<open>with open(file_path, 'w', ...) as f: json.dump(data, f, ...)\<close>. Opening the file
  empties it. When \<open>json.dump\<close> then raises, on data that cannot be encoded or by the
  environment, the file is left with a part of the text at most, which \<open>json.load\<close>
  cannot read any more.
\<close>

definition write_json :: "path \<Rightarrow> jvalue \<Rightarrow> filesystem \<Rightarrow> (exception + unit) \<times> filesystem" where
  "write_json file_path data fs =
     (case on_write fs file_path of
        Refuses \<Rightarrow> (Inl WriteError, fs)
      | Breaks \<Rightarrow>
          (Inl WriteError,
           fs\<lparr>contents := (contents fs)(file_path := None),
              writes := writes fs @ [file_path]\<rparr>)
      | Completes \<Rightarrow>
          if encodable data then
            (Inr (),
             fs\<lparr>contents := (contents fs)(file_path \<mapsto> data),
                writes := writes fs @ [file_path]\<rparr>)
          else
            (Inl WriteError,
             fs\<lparr>contents := (contents fs)(file_path := None),
                writes := writes fs @ [file_path]\<rparr>))"

text \<open>
  What \<open>len(data)\<close> counts and \<open>for item in data\<close> visits: the elements of a list, the
  keys of an object, the characters of a string; a number, a boolean and \<open>null\<close> raise
  \<open>TypeError\<close>.
\<close>

fun elements :: "jvalue \<Rightarrow> exception + jvalue list" where
  "elements (JArr xs) = Inr xs"
| "elements (JObj kvs) = Inr (map (\<lambda>kv. JStr (fst kv)) kvs)"
| "elements (JStr s) = Inr (map (\<lambda>c. JStr [c]) s)"
| "elements (JNum n) = Inl TypeError"
| "elements (JBool b) = Inl TypeError"
| "elements JNull = Inl TypeError"

text \<open>
  The records are changed in place, so the loaded list holds the changed records; data
  that is not a list is left as loaded.
\<close>

fun with_elements :: "jvalue \<Rightarrow> jvalue list \<Rightarrow> jvalue" where
  "with_elements (JArr xs) ys = JArr ys"
| "with_elements data ys = data"

text \<open>
  The loop \<open>for i, item in enumerate(data)\<close> of \<open>process_file\<close>. An element that is not an
  object has no \<open>items\<close>: \<open>AttributeError\<close>.
\<close>

fun process_items ::
  "provider \<Rightarrow> jvalue list \<Rightarrow> TranslationStats \<Rightarrow> pystr list \<Rightarrow>
     ((exception + unit) \<times> jvalue list \<times> TranslationStats \<times> pystr list) option" where
  "process_items p [] stats calls = Some (Inr (), [], stats, calls)"
| "process_items p (x # xs) stats calls =
     (case x of
        JObj item \<Rightarrow>
          (case process_item p item stats calls of
             None \<Rightarrow> None
           | Some (Inl e, item', stats', calls') \<Rightarrow> Some (Inl e, JObj item' # xs, stats', calls')
           | Some (Inr u, item', stats', calls') \<Rightarrow>
               (case process_items p xs stats' calls' of
                  None \<Rightarrow> None
                | Some (r, xs', stats'', calls'') \<Rightarrow> Some (r, JObj item' # xs', stats'', calls'')))
      | _ \<Rightarrow> Some (Inl AttributeError, x # xs, stats, calls))"

record FileResult =
  filename :: pystr
  success :: bool
  stats :: TranslationStats
  error :: "exception option"

text \<open>
  \<open>process_file\<close>: every exception of the body is caught and reported in the result,
  that of the write as well, which is inside the \<open>try\<close>; without one, the data has been
  written back.
\<close>

definition process_file ::
  "provider \<Rightarrow> path \<Rightarrow> filesystem \<Rightarrow> pystr list \<Rightarrow>
     (FileResult \<times> filesystem \<times> pystr list) option" where
  "process_file p file_path fs calls =
     (case contents fs file_path of
        None \<Rightarrow>
          Some (\<lparr>filename = path_name file_path, success = False, stats = new_stats,
                  error = Some LoadError\<rparr>, fs, calls)
      | Some data \<Rightarrow>
          (case elements data of
             Inl e \<Rightarrow>
               Some (\<lparr>filename = path_name file_path, success = False, stats = new_stats,
                       error = Some e\<rparr>, fs, calls)
           | Inr elems \<Rightarrow>
               (case process_items p elems (new_stats\<lparr>total_items := length elems\<rparr>) calls of
                  None \<Rightarrow> None
                | Some (Inl e, elems', stats', calls') \<Rightarrow>
                    Some (\<lparr>filename = path_name file_path, success = False, stats = stats',
                            error = Some e\<rparr>, fs, calls')
                | Some (Inr u, elems', stats', calls') \<Rightarrow>
                    (case write_json file_path (with_elements data elems') fs of
                       (Inl e, fs') \<Rightarrow>
                         Some (\<lparr>filename = path_name file_path, success = False,
                                 stats = stats', error = Some e\<rparr>, fs', calls')
                     | (Inr w, fs') \<Rightarrow>
                         Some (\<lparr>filename = path_name file_path, success = True,
                                 stats = stats', error = None\<rparr>, fs', calls')))))"

text \<open>The loop \<open>for i, item in enumerate(data)\<close> of \<open>_retry_file\<close>.\<close>

fun retry_items ::
  "provider \<Rightarrow> jvalue list \<Rightarrow> nat \<Rightarrow> nat \<Rightarrow> bool \<Rightarrow> pystr list \<Rightarrow>
     ((exception + unit) \<times> jvalue list \<times> nat \<times> nat \<times> bool \<times> pystr list) option" where
  "retry_items p [] fields_retried fields_fixed modified calls =
     Some (Inr (), [], fields_retried, fields_fixed, modified, calls)"
| "retry_items p (x # xs) fields_retried fields_fixed modified calls =
     (case x of
        JObj item \<Rightarrow>
          (case retry_fields p item item fields_retried fields_fixed modified calls of
             None \<Rightarrow> None
           | Some (Inl e, item', r', f', m', calls') \<Rightarrow>
               Some (Inl e, JObj item' # xs, r', f', m', calls')
           | Some (Inr u, item', r', f', m', calls') \<Rightarrow>
               (case retry_items p xs r' f' m' calls' of
                  None \<Rightarrow> None
                | Some (res, xs', r'', f'', m'', calls'') \<Rightarrow>
                    Some (res, JObj item' # xs', r'', f'', m'', calls'')))
      | _ \<Rightarrow> Some (Inl AttributeError, x # xs, fields_retried, fields_fixed, modified, calls))"

record FileRetryResult =
  retry_filename :: pystr
  fields_retried :: nat
  fields_fixed :: nat
  modified :: bool

text \<open>
  \<open>_retry_file\<close>: an exception is not caught here (the caller, \<open>retry_all_files\<close>, catches
  it), that of the write neither; the file is written only under \<open>if modified\<close>.
\<close>

definition retry_file ::
  "provider \<Rightarrow> path \<Rightarrow> filesystem \<Rightarrow> pystr list \<Rightarrow>
     ((exception + FileRetryResult) \<times> filesystem \<times> pystr list) option" where
  "retry_file p file_path fs calls =
     (case contents fs file_path of
        None \<Rightarrow> Some (Inl LoadError, fs, calls)
      | Some data \<Rightarrow>
          (case elements data of
             Inl e \<Rightarrow> Some (Inl e, fs, calls)
           | Inr elems \<Rightarrow>
               (case retry_items p elems 0 0 False calls of
                  None \<Rightarrow> None
                | Some (Inl e, elems', r, f, m, calls') \<Rightarrow> Some (Inl e, fs, calls')
                | Some (Inr u, elems', r, f, m, calls') \<Rightarrow>
                    if m then
                      (case write_json file_path (with_elements data elems') fs of
                         (Inl e, fs') \<Rightarrow> Some (Inl e, fs', calls')
                       | (Inr w, fs') \<Rightarrow>
                           Some (Inr \<lparr>retry_filename = path_name file_path, fields_retried = r,
                                       fields_fixed = f, modified = m\<rparr>, fs', calls'))
                    else
                      Some (Inr \<lparr>retry_filename = path_name file_path, fields_retried = r,
                                  fields_fixed = f, modified = m\<rparr>, fs, calls'))))"

section \<open>Properties of the chunker\<close>

lemma startswith_length: "startswith s d \<Longrightarrow> length d \<le> length s"
  by (induction s d rule: startswith.induct) auto

lemma rfind_from_range:
  "rfind_from s d i found = found \<or>
   (i \<le> rfind_from s d i found \<and>
    rfind_from s d i found + int (length d) \<le> i + int (length s))"
proof (induction s arbitrary: i found)
  case Nil
  then show ?case by simp
next
  case (Cons c cs)
  show ?case
  proof (cases "startswith (c # cs) d")
    case True
    from startswith_length [OF True] have len: "int (length d) \<le> int (length cs) + 1"
      by simp
    from Cons.IH [of "i + 1" i] True len show ?thesis
      by auto
  next
    case False
    with Cons.IH [of "i + 1" found] show ?thesis
      by auto
  qed
qed

lemma rfind_range:
  "rfind s d = - 1 \<or> (0 \<le> rfind s d \<and> rfind s d + int (length d) \<le> int (length s))"
  using rfind_from_range [of s d 0 "- 1"] by (simp add: rfind_def)

text \<open>
  The scan computes what \<open>str.rfind\<close> is documented to return: the highest index at
  which the string occurs, and \<open>-1\<close> when there is none.
\<close>

lemma rfind_from_last:
  "(rfind_from s d i found = found \<and> (\<forall>j \<le> length s. \<not> startswith (drop j s) d)) \<or>
   (\<exists>j \<le> length s. rfind_from s d i found = i + int j \<and> startswith (drop j s) d \<and>
      (\<forall>j' \<le> length s. j < j' \<longrightarrow> \<not> startswith (drop j' s) d))"
proof (induction s arbitrary: i found)
  case Nil
  show ?case by (cases d) auto
next
  case (Cons c cs)
  let ?found = "if startswith (c # cs) d then i else found"
  from Cons.IH [of "i + 1" ?found]
  consider
    (none) "rfind_from cs d (i + 1) ?found = ?found"
      "\<forall>j \<le> length cs. \<not> startswith (drop j cs) d"
  | (some) j where "j \<le> length cs" "rfind_from cs d (i + 1) ?found = i + 1 + int j"
      "startswith (drop j cs) d" "\<forall>j' \<le> length cs. j < j' \<longrightarrow> \<not> startswith (drop j' cs) d"
    by blast
  then show ?case
  proof cases
    case none
    have later: "\<forall>j' \<le> length (c # cs). 0 < j' \<longrightarrow> \<not> startswith (drop j' (c # cs)) d"
    proof (intro allI impI)
      fix j' assume "j' \<le> length (c # cs)" "0 < j'"
      then obtain k where "j' = Suc k" "k \<le> length cs" by (cases j') auto
      with none(2) show "\<not> startswith (drop j' (c # cs)) d" by simp
    qed
    show ?thesis
    proof (cases "startswith (c # cs) d")
      case True
      with none(1) later show ?thesis
        by (intro disjI2 exI [of _ 0]) simp
    next
      case False
      have "\<forall>j \<le> length (c # cs). \<not> startswith (drop j (c # cs)) d"
      proof (intro allI impI)
        fix j assume "j \<le> length (c # cs)"
        with False later show "\<not> startswith (drop j (c # cs)) d" by (cases j) auto
      qed
      with none(1) False show ?thesis by simp
    qed
  next
    case (some j)
    have "\<forall>j' \<le> length (c # cs). Suc j < j' \<longrightarrow> \<not> startswith (drop j' (c # cs)) d"
    proof (intro allI impI)
      fix j' assume "j' \<le> length (c # cs)" "Suc j < j'"
      then obtain k where "j' = Suc k" "k \<le> length cs" "j < k" by (cases j') auto
      with some(4) show "\<not> startswith (drop j' (c # cs)) d" by simp
    qed
    with some(1,2,3) show ?thesis
      by (intro disjI2 exI [of _ "Suc j"]) simp
  qed
qed

lemma rfind_last_occurrence:
  "(rfind s d = - 1 \<and> (\<forall>j \<le> length s. \<not> startswith (drop j s) d)) \<or>
   (\<exists>j \<le> length s. rfind s d = int j \<and> startswith (drop j s) d \<and>
      (\<forall>j' \<le> length s. j < j' \<longrightarrow> \<not> startswith (drop j' s) d))"
  using rfind_from_last [of s d 0 "- 1"] by (simp add: rfind_def)

lemma scan_delimiters_cases:
  assumes "0 \<le> min_pos"
  shows "scan_delimiters ds chunk min_pos max_size = max_size \<or>
   (min_pos < scan_delimiters ds chunk min_pos max_size \<and>
    scan_delimiters ds chunk min_pos max_size \<le> int (length chunk))"
proof (induction ds)
  case Nil
  then show ?case by simp
next
  case (Cons d ds)
  show ?case
  proof (cases "rfind chunk d > min_pos")
    case True
    with rfind_range [of chunk d] assms show ?thesis
      by (auto simp: Let_def)
  next
    case False
    with Cons.IH show ?thesis
      by (simp add: Let_def)
  qed
qed

lemma scan_delimiters_none:
  "\<forall>d \<in> set ds. rfind chunk d \<le> min_pos \<Longrightarrow>
   scan_delimiters ds chunk min_pos max_size = max_size"
  by (induction ds) (auto simp: Let_def)

lemma find_break_point_bounds:
  assumes "0 < max_size" and "int (length chunk) = max_size"
  shows "0 < find_break_point chunk max_size"
    and "find_break_point chunk max_size \<le> max_size"
    and "max_size < 2 * find_break_point chunk max_size"
  using assms
    scan_delimiters_cases [of "min_position max_size" SENTENCE_DELIMITERS chunk max_size]
  by (auto simp: find_break_point_def min_position_def)

lemma chunk_loop_result:
  assumes "0 < max_size"
  shows "\<exists>cs. chunk_loop max_size remaining chunks = Some (chunks @ cs) \<and>
           concat cs = remaining \<and>
           (\<forall>c \<in> set cs. int (length c) \<le> max_size) \<and>
           (\<forall>i. Suc i < length cs \<longrightarrow> max_size < 2 * int (length (cs ! i)))"
proof (induction "length remaining" arbitrary: remaining chunks rule: less_induct)
  case less
  show ?case
  proof (cases "remaining = []")
    case True
    then show ?thesis
      by (subst chunk_loop.simps) simp
  next
    case nonempty: False
    show ?thesis
    proof (cases "int (length remaining) \<le> max_size")
      case True
      with nonempty show ?thesis
        by (subst chunk_loop.simps) simp
    next
      case False
      define chunk where "chunk = slice_to remaining max_size"
      define bp where "bp = find_break_point chunk max_size"
      from False assms have len_chunk: "int (length chunk) = max_size"
        by (simp add: chunk_def slice_to_def)
      note b = find_break_point_bounds [OF assms len_chunk, folded bp_def]
      from b False have len_head: "int (length (slice_to remaining bp)) = bp"
        by (simp add: slice_to_def)
      from b have shorter: "length (slice_from remaining bp) < length remaining"
        using nonempty by (simp add: slice_from_def)
      from less [OF shorter, of "chunks @ [slice_to remaining bp]"]
      obtain cs where cs:
        "chunk_loop max_size (slice_from remaining bp) (chunks @ [slice_to remaining bp]) =
           Some ((chunks @ [slice_to remaining bp]) @ cs)"
        "concat cs = slice_from remaining bp"
        "\<forall>c \<in> set cs. int (length c) \<le> max_size"
        "\<forall>i. Suc i < length cs \<longrightarrow> max_size < 2 * int (length (cs ! i))"
        by blast
      have unfold: "chunk_loop max_size remaining chunks =
          chunk_loop max_size (slice_from remaining bp) (chunks @ [slice_to remaining bp])"
        using nonempty False
        by (subst chunk_loop.simps) (simp add: Let_def chunk_def bp_def)
      have cat: "concat (slice_to remaining bp # cs) = remaining"
        using cs(2) b by (simp add: slice_to_def slice_from_def)
      have bound: "\<forall>c \<in> set (slice_to remaining bp # cs). int (length c) \<le> max_size"
        using cs(3) len_head b by simp
      have progress: "\<forall>i. Suc i < length (slice_to remaining bp # cs) \<longrightarrow>
          max_size < 2 * int (length ((slice_to remaining bp # cs) ! i))"
      proof (intro allI impI)
        fix i
        assume i: "Suc i < length (slice_to remaining bp # cs)"
        show "max_size < 2 * int (length ((slice_to remaining bp # cs) ! i))"
        proof (cases i)
          case 0
          with len_head b show ?thesis by simp
        next
          case (Suc j)
          with i cs(4) show ?thesis by simp
        qed
      qed
      from unfold cs(1) cat bound progress show ?thesis
        by (intro exI [of _ "slice_to remaining bp # cs"]) simp
    qed
  qed
qed

lemma chunk_text_result:
  assumes "0 < max_size"
  shows "\<exists>cs. chunk_text text max_size = Some cs \<and>
           concat cs = text \<and>
           (\<forall>c \<in> set cs. int (length c) \<le> max_size) \<and>
           (\<forall>i. Suc i < length cs \<longrightarrow> max_size < 2 * int (length (cs ! i)))"
proof (cases "int (length text) \<le> max_size")
  case True
  then show ?thesis
    by (simp add: chunk_text_def)
next
  case False
  with chunk_loop_result [OF assms, of "text" "[]"] show ?thesis
    by (simp add: chunk_text_def)
qed

lemmas chunk_eval =
  chunk_text_def slice_to_def slice_from_def find_break_point_def SENTENCE_DELIMITERS_def
  min_position_def rfind_def str_def Let_def

lemma hard_break_step:
  assumes "0 < max_size" and "max_size < int (length remaining)"
    and "\<forall>d \<in> set SENTENCE_DELIMITERS. rfind (slice_to remaining max_size) d \<le> min_position max_size"
  shows "find_break_point (slice_to remaining max_size) max_size = max_size"
    and "chunk_loop max_size remaining chunks =
           chunk_loop max_size (drop (nat max_size) remaining)
             (chunks @ [take (nat max_size) remaining])"
proof -
  show bp: "find_break_point (slice_to remaining max_size) max_size = max_size"
    using assms(3) by (simp add: find_break_point_def scan_delimiters_none)
  from assms(1,2) have "remaining \<noteq> []" and "\<not> int (length remaining) \<le> max_size"
    by auto
  then have "chunk_loop max_size remaining chunks =
           chunk_loop max_size (slice_from remaining max_size)
             (chunks @ [slice_to remaining max_size])"
    by (subst chunk_loop.simps) (simp add: bp Let_def)
  with assms(1) show "chunk_loop max_size remaining chunks =
           chunk_loop max_size (drop (nat max_size) remaining)
             (chunks @ [take (nat max_size) remaining])"
    by (simp add: slice_to_def slice_from_def)
qed

subsection \<open>C1: the chunks concatenate to the text\<close>

text \<open>
  C1. For every string \<open>s\<close> and every \<open>max_size > 0\<close>, \<open>TextChunker.chunk_text(s, max_size)\<close>
  returns, and concatenating the returned chunks in order gives \<open>s\<close> back exactly.
\<close>

theorem chunk_text_reconstructs:
  "0 < max_size \<Longrightarrow> \<exists>chunks. chunk_text s max_size = Some chunks \<and> concat chunks = s"
  using chunk_text_result [of max_size s] by blast

theorem chunk_text_reconstructs_witness:
  "(0::int) < 8 \<and>
   chunk_text (str ''abcde. fghijklmnop'') 8 =
     Some [str ''abcde. '', str ''fghijklm'', str ''nop''] \<and>
   concat [str ''abcde. '', str ''fghijklm'', str ''nop''] = str ''abcde. fghijklmnop''"
  using chunk_text_reconstructs [of 8 "str ''abcde. fghijklmnop''"]
  by (simp add: chunk_eval chunk_loop.simps)

subsection \<open>C2: no chunk is longer than the maximum\<close>

text \<open>
  C2. For every string \<open>s\<close> and every \<open>max_size > 0\<close>, every chunk that
  \<open>chunk_text(s, max_size)\<close> returns has length at most \<open>max_size\<close>. When no delimiter of the
  window \<open>remaining[:max_size]\<close> lies beyond the minimum position, \<open>_find_break_point\<close>
  returns \<open>max_size\<close> and the loop cuts the chunk \<open>remaining[:max_size]\<close>, of length exactly
  \<open>max_size\<close>.
\<close>

theorem chunk_text_size_bound:
  assumes "0 < max_size"
  shows "(\<exists>chunks. chunk_text s max_size = Some chunks \<and>
            (\<forall>c \<in> set chunks. int (length c) \<le> max_size)) \<and>
         (max_size < int (length remaining) \<and>
          (\<forall>d \<in> set SENTENCE_DELIMITERS.
             rfind (slice_to remaining max_size) d \<le> min_position max_size) \<longrightarrow>
          find_break_point (slice_to remaining max_size) max_size = max_size \<and>
          int (length (take (nat max_size) remaining)) = max_size \<and>
          chunk_loop max_size remaining chunks =
            chunk_loop max_size (drop (nat max_size) remaining)
              (chunks @ [take (nat max_size) remaining]))"
proof (intro conjI impI)
  show "\<exists>chunks. chunk_text s max_size = Some chunks \<and>
          (\<forall>c \<in> set chunks. int (length c) \<le> max_size)"
    using chunk_text_result [OF assms, of s] by blast
next
  assume h: "max_size < int (length remaining) \<and>
    (\<forall>d \<in> set SENTENCE_DELIMITERS.
       rfind (slice_to remaining max_size) d \<le> min_position max_size)"
  then show "find_break_point (slice_to remaining max_size) max_size = max_size"
    using hard_break_step(1) [OF assms] by blast
  from h assms show "int (length (take (nat max_size) remaining)) = max_size"
    by (auto simp: min_def)
  from h show "chunk_loop max_size remaining chunks =
      chunk_loop max_size (drop (nat max_size) remaining)
        (chunks @ [take (nat max_size) remaining])"
    using hard_break_step(2) [OF assms] by blast
qed

theorem chunk_text_size_bound_witness:
  "(0::int) < 4 \<and>
   chunk_text (str ''ab. cdefg'') 4 = Some [str ''ab. '', str ''cdef'', str ''g''] \<and>
   list_all (\<lambda>c. int (length c) \<le> 4) [str ''ab. '', str ''cdef'', str ''g''] \<and>
   (4::int) < int (length (str ''cdefg'')) \<and>
   list_all (\<lambda>d. rfind (slice_to (str ''cdefg'') 4) d \<le> min_position 4) SENTENCE_DELIMITERS \<and>
   find_break_point (slice_to (str ''cdefg'') 4) 4 = 4 \<and>
   take (nat 4) (str ''cdefg'') = str ''cdef'' \<and>
   chunk_loop 4 (str ''cdefg'') [str ''ab. ''] = chunk_loop 4 (str ''g'') [str ''ab. '', str ''cdef'']"
  using chunk_text_size_bound [of 4 "str ''ab. cdefg''" "str ''cdefg''" "[str ''ab. '']"]
  by (simp add: chunk_eval chunk_loop.simps)

subsection \<open>C8: the chunker returns, by progress of every cut\<close>

text \<open>
  C8, as stated: \<open>chunk_text\<close> terminates for every \<open>max_size \<ge> 1\<close>, every loop iteration
  consumes at least \<open>MIN_CHUNK_RATIO * max_size\<close> characters, and the hard break advances
  by exactly \<open>max_size\<close>. The last iteration takes what is left, which can be a single
  character: on five letters and \<open>max_size = 4\<close> the second iteration consumes one
  character, fewer than \<open>0.5 * 4\<close>.
\<close>

theorem chunk_text_last_iteration_short:
  "chunk_text (str ''aaaaa'') 4 = Some [str ''aaaa'', str ''a''] \<and>
   chunk_loop 4 (str ''a'') [str ''aaaa''] = Some [str ''aaaa'', str ''a''] \<and>
   \<not> (4 \<le> 2 * int (length (str ''a'')))"
  by (simp add: chunk_eval chunk_loop.simps)

text \<open>
  C8, amended: for every text and every \<open>max_size \<ge> 1\<close>, \<open>chunk_text\<close> returns; every
  loop iteration but the last consumes at least \<open>MIN_CHUNK_RATIO * max_size\<close> characters
  (every chunk but the last has at least that length); and when no delimiter qualifies
  the break point is \<open>max_size\<close> and the iteration consumes exactly \<open>max_size\<close> characters.
\<close>

theorem chunk_text_terminates:
  assumes "1 \<le> max_size"
  shows "(\<exists>chunks. chunk_text s max_size = Some chunks \<and>
            (\<forall>i. Suc i < length chunks \<longrightarrow> max_size \<le> 2 * int (length (chunks ! i)))) \<and>
         (max_size < int (length remaining) \<and>
          (\<forall>d \<in> set SENTENCE_DELIMITERS.
             rfind (slice_to remaining max_size) d \<le> min_position max_size) \<longrightarrow>
          int (length (slice_to remaining
                 (find_break_point (slice_to remaining max_size) max_size))) = max_size)"
proof (intro conjI impI)
  from assms have pos: "0 < max_size" by simp
  from chunk_text_result [OF pos, of s]
  obtain cs where cs: "chunk_text s max_size = Some cs"
    "\<forall>i. Suc i < length cs \<longrightarrow> max_size < 2 * int (length (cs ! i))"
    by blast
  from cs(2) have "\<forall>i. Suc i < length cs \<longrightarrow> max_size \<le> 2 * int (length (cs ! i))"
    by (simp add: less_imp_le)
  with cs(1) show "\<exists>chunks. chunk_text s max_size = Some chunks \<and>
      (\<forall>i. Suc i < length chunks \<longrightarrow> max_size \<le> 2 * int (length (chunks ! i)))"
    by blast
next
  from assms have pos: "0 < max_size" by simp
  assume h: "max_size < int (length remaining) \<and>
    (\<forall>d \<in> set SENTENCE_DELIMITERS.
       rfind (slice_to remaining max_size) d \<le> min_position max_size)"
  then have "find_break_point (slice_to remaining max_size) max_size = max_size"
    using hard_break_step(1) [OF pos] by blast
  with h pos show "int (length (slice_to remaining
      (find_break_point (slice_to remaining max_size) max_size))) = max_size"
    by (auto simp: slice_to_def min_def)
qed

theorem chunk_text_terminates_witness:
  "(1::int) \<le> 4 \<and>
   chunk_text (str ''ab. cdefg'') 4 = Some [str ''ab. '', str ''cdef'', str ''g''] \<and>
   (4::int) \<le> 2 * int (length (str ''ab. '')) \<and>
   (4::int) \<le> 2 * int (length (str ''cdef'')) \<and>
   (4::int) < int (length (str ''cdefg'')) \<and>
   list_all (\<lambda>d. rfind (slice_to (str ''cdefg'') 4) d \<le> min_position 4) SENTENCE_DELIMITERS \<and>
   int (length (slice_to (str ''cdefg'') (find_break_point (slice_to (str ''cdefg'') 4) 4))) = 4"
  using chunk_text_terminates [of 4 "str ''ab. cdefg''" "str ''cdefg''"]
  by (simp add: chunk_eval chunk_loop.simps)

section \<open>Properties of the translator\<close>

lemma translate_single_from_returns:
  "\<exists>r calls'. translate_single_from p t attempt calls = (Inr r, calls')"
proof (induction p t attempt calls rule: translate_single_from.induct)
  case (1 p t attempt calls)
  show ?case
  proof (cases "attempt < MAX_RETRIES")
    case False
    then show ?thesis by (subst translate_single_from.simps) simp
  next
    case True
    show ?thesis
    proof (cases "p calls t")
      case (Inr r)
      with True show ?thesis
        by (subst translate_single_from.simps) (simp add: call_provider_def)
    next
      case (Inl e)
      show ?thesis
      proof (cases "attempt < MAX_RETRIES - 1")
        case last: False
        with True Inl show ?thesis
          by (subst translate_single_from.simps) (simp add: call_provider_def)
      next
        case more: True
        from "1.IH" True Inl more
        have "\<exists>r calls'. translate_single_from p t (attempt + 1) (calls @ [t]) = (Inr r, calls')"
          by (auto simp: call_provider_def)
        with True Inl more show ?thesis
          by (subst translate_single_from.simps) (simp add: call_provider_def)
      qed
    qed
  qed
qed

lemma translate_single_from_retry:
  assumes "attempt + k < MAX_RETRIES"
    and "\<forall>i<k. isl (p (calls @ replicate i t) t)"
    and "p (calls @ replicate k t) t = Inr r"
  shows "translate_single_from p t attempt calls = (Inr r, calls @ replicate (Suc k) t)"
  using assms
proof (induction k arbitrary: attempt calls)
  case 0
  then show ?case
    by (subst translate_single_from.simps) (simp add: call_provider_def)
next
  case (Suc k)
  from Suc.prems(2) [rule_format, of 0] have "isl (p calls t)" by simp
  then obtain e where e: "p calls t = Inl e" by (cases "p calls t") auto
  have fails: "\<forall>i<k. isl (p ((calls @ [t]) @ replicate i t) t)"
  proof (intro allI impI)
    fix i assume "i < k"
    with Suc.prems(2) [rule_format, of "Suc i"]
    show "isl (p ((calls @ [t]) @ replicate i t) t)" by simp
  qed
  from Suc.prems(3) have ok: "p ((calls @ [t]) @ replicate k t) t = Inr r" by simp
  from Suc.prems(1) have left: "(attempt + 1) + k < MAX_RETRIES" by simp
  have "translate_single_from p t (attempt + 1) (calls @ [t]) =
      (Inr r, (calls @ [t]) @ replicate (Suc k) t)"
    by (rule Suc.IH [OF left fails ok])
  with e Suc.prems(1) show ?case
    by (subst translate_single_from.simps) (simp add: call_provider_def)
qed

lemma translate_single_from_exhausted:
  assumes "attempt \<le> MAX_RETRIES"
    and "\<forall>i < MAX_RETRIES - attempt. isl (p (calls @ replicate i t) t)"
  shows "translate_single_from p t attempt calls =
           (Inr t, calls @ replicate (MAX_RETRIES - attempt) t)"
  using assms
proof (induction "MAX_RETRIES - attempt" arbitrary: attempt calls)
  case 0
  then show ?case
    by (subst translate_single_from.simps) simp
next
  case (Suc n)
  from Suc.hyps(2) have lt: "attempt < MAX_RETRIES" by simp
  from Suc.prems(2) [rule_format, of 0] lt have "isl (p calls t)" by simp
  then obtain e where e: "p calls t = Inl e" by (cases "p calls t") auto
  show ?case
  proof (cases "attempt < MAX_RETRIES - 1")
    case False
    with lt have "MAX_RETRIES - attempt = 1" by simp
    with e lt False show ?thesis
      by (subst translate_single_from.simps) (simp add: call_provider_def)
  next
    case True
    have n: "n = MAX_RETRIES - (attempt + 1)" using Suc.hyps(2) by simp
    have "\<forall>i < MAX_RETRIES - (attempt + 1). isl (p ((calls @ [t]) @ replicate i t) t)"
    proof (intro allI impI)
      fix i assume "i < MAX_RETRIES - (attempt + 1)"
      then have "Suc i < MAX_RETRIES - attempt" by simp
      with Suc.prems(2) [rule_format, of "Suc i"]
      show "isl (p ((calls @ [t]) @ replicate i t) t)" by simp
    qed
    with Suc.hyps(1) [OF n] lt
    have "translate_single_from p t (attempt + 1) (calls @ [t]) =
        (Inr t, (calls @ [t]) @ replicate (MAX_RETRIES - (attempt + 1)) t)"
      by simp
    moreover have "(calls @ [t]) @ replicate (MAX_RETRIES - (attempt + 1)) t =
        calls @ replicate (MAX_RETRIES - attempt) t"
      using lt by (simp add: Suc_diff_Suc replicate_Suc [symmetric] del: replicate_Suc)
    ultimately show ?thesis using e lt True
      by (subst translate_single_from.simps) (simp add: call_provider_def)
  qed
qed

lemma translate_returns:
  "\<exists>r calls'. translate p t calls = Some (Inr r, calls')"
proof -
  have "(0::int) < MAX_CHUNK_SIZE" by (simp add: MAX_CHUNK_SIZE_def)
  from chunk_text_result [OF this, of t]
  obtain cs where cs: "chunk_text t MAX_CHUNK_SIZE = Some cs" by blast
  show ?thesis
  proof (cases "t = [] \<or> strip t = []")
    case True
    then show ?thesis by (auto simp: translate_def)
  next
    case False
    show ?thesis
    proof (cases "length cs = 1")
      case True
      with False cs translate_single_from_returns [of p t 0 calls] show ?thesis
        by (auto simp: translate_def translate_single_def)
    next
      case many: False
      with False cs show ?thesis
        by (auto simp: translate_def translate_chunks_def split: prod.splits)
    qed
  qed
qed

lemmas translate_eval =
  translate_def strip_def is_space_def chunk_text_def MAX_CHUNK_SIZE_def translate_single_def
  translate_single_from.simps call_provider_def MAX_RETRIES_def str_def

subsection \<open>C5: retry convergence\<close>

text \<open>
  C5. If the provider raises on the first \<open>k\<close> calls for a text, with \<open>k < MAX_RETRIES\<close>,
  and returns \<open>result\<close> on the next call, then \<open>_translate_single\<close> returns \<open>result\<close> and
  makes exactly \<open>k + 1\<close> provider calls, all for that text.
\<close>

theorem translate_single_retry_convergence:
  assumes "k < MAX_RETRIES"
    and "\<forall>i<k. isl (p (calls @ replicate i t) t)"
    and "p (calls @ replicate k t) t = Inr result"
  shows "\<exists>calls'. translate_single p t calls = (Inr result, calls') \<and>
           calls' = calls @ replicate (k + 1) t \<and>
           length calls' = length calls + (k + 1)"
  using translate_single_from_retry [of 0 k p calls t result] assms
  by (simp add: translate_single_def)

theorem translate_single_retry_convergence_witness:
  "(2::nat) < MAX_RETRIES \<and>
   isl ((\<lambda>calls t. if length calls < 2 then Inl ProviderError else Inr (str ''Hello''))
          [] (str ''abc'')) \<and>
   isl ((\<lambda>calls t. if length calls < 2 then Inl ProviderError else Inr (str ''Hello''))
          [str ''abc''] (str ''abc'')) \<and>
   translate_single
     (\<lambda>calls t. if length calls < 2 then Inl ProviderError else Inr (str ''Hello''))
     (str ''abc'') [] =
     (Inr (str ''Hello''), [str ''abc'', str ''abc'', str ''abc''])"
  using translate_single_retry_convergence
    [of 2 "\<lambda>calls t. if length calls < 2 then Inl ProviderError else Inr (str ''Hello'')"
        "[]" "str ''abc''" "str ''Hello''"]
  by (simp add: translate_eval)

subsection \<open>C4: translate never raises\<close>

text \<open>
  C4. For every text and every provider, also one that raises on every call,
  \<open>Translator.translate\<close> returns a text and raises nothing; and when the text is a single
  chunk and all \<open>MAX_RETRIES\<close> attempts raise, the text itself is returned (after exactly
  \<open>MAX_RETRIES\<close> calls, or none for a blank text).
\<close>

theorem translate_never_raises:
  "(\<exists>r calls'. translate p t calls = Some (Inr r, calls')) \<and>
   (int (length t) \<le> MAX_CHUNK_SIZE \<and> (\<forall>i<MAX_RETRIES. isl (p (calls @ replicate i t) t)) \<longrightarrow>
    translate p t calls =
      Some (Inr t, if t = [] \<or> strip t = [] then calls else calls @ replicate MAX_RETRIES t))"
proof (intro conjI impI)
  show "\<exists>r calls'. translate p t calls = Some (Inr r, calls')"
    by (rule translate_returns)
next
  assume h: "int (length t) \<le> MAX_CHUNK_SIZE \<and>
    (\<forall>i<MAX_RETRIES. isl (p (calls @ replicate i t) t))"
  then have "\<forall>i < MAX_RETRIES - 0. isl (p (calls @ replicate i t) t)" by simp
  with translate_single_from_exhausted [of 0 p calls t]
  have "translate_single p t calls = (Inr t, calls @ replicate MAX_RETRIES t)"
    by (simp add: translate_single_def)
  with h show "translate p t calls =
      Some (Inr t, if t = [] \<or> strip t = [] then calls else calls @ replicate MAX_RETRIES t)"
    by (simp add: translate_def chunk_text_def)
qed

theorem translate_never_raises_witness:
  "int (length (str ''abc'')) \<le> MAX_CHUNK_SIZE \<and>
   isl ((\<lambda>calls t. Inl ProviderError :: exception + pystr) [] (str ''abc'')) \<and>
   translate (\<lambda>calls t. Inl ProviderError) (str ''abc'') [] =
     Some (Inr (str ''abc''),
           [str ''abc'', str ''abc'', str ''abc'', str ''abc'', str ''abc''])"
  using translate_never_raises [of "\<lambda>calls t. Inl ProviderError" "str ''abc''" "[]"]
  by (simp add: translate_eval)

section \<open>Properties of the translation pass\<close>

lemma dict_set_absent: "\<not> dict_has d k \<Longrightarrow> dict_set d k v = d @ [(k, v)]"
  by (induction d) (auto simp: dict_has_def)

lemma dict_has_append: "dict_has (d @ e) k = (dict_has d k \<or> dict_has e k)"
  by (auto simp: dict_has_def)

lemma endswith_append: "endswith (k @ suffix) suffix"
  by (simp add: endswith_def)

lemma process_fields_step:
  obtains
    (skip) "\<not> (is_source_field (key, val) \<and> \<not> dict_has cur (key @ TRANSLATION_SUFFIX))"
      "process_fields p ((key, val) # rest) cur st calls =
         process_fields p rest cur
           (if is_source_field (key, val)
            then st\<lparr>skipped_fields := skipped_fields st + 1\<rparr> else st) calls"
  | (translated) v tr calls1 where "val = JStr v" "is_source_field (key, val)"
      "\<not> dict_has cur (key @ TRANSLATION_SUFFIX)"
      "translate p v calls = Some (Inr tr, calls1)"
      "process_fields p ((key, val) # rest) cur st calls =
         process_fields p rest (cur @ [(key @ TRANSLATION_SUFFIX, JStr tr)])
           (if tr \<noteq> v then st\<lparr>translated_fields := translated_fields st + 1\<rparr>
            else st\<lparr>failed_fields := failed_fields st + 1\<rparr>) calls1"
proof (cases "is_source_field (key, val) \<and> \<not> dict_has cur (key @ TRANSLATION_SUFFIX)")
  case False
  then have "process_fields p ((key, val) # rest) cur st calls =
         process_fields p rest cur
           (if is_source_field (key, val)
            then st\<lparr>skipped_fields := skipped_fields st + 1\<rparr> else st) calls"
    by (cases val) (auto simp: is_source_field_def Let_def)
  with False show ?thesis by (rule skip)
next
  case True
  then obtain v where v: "val = JStr v" "strip v \<noteq> []" "\<not> endswith key TRANSLATION_SUFFIX"
    by (cases val) (auto simp: is_source_field_def)
  from translate_returns [of p v calls]
  obtain tr calls1 where tr: "translate p v calls = Some (Inr tr, calls1)" by blast
  from True v tr have "process_fields p ((key, val) # rest) cur st calls =
         process_fields p rest (cur @ [(key @ TRANSLATION_SUFFIX, JStr tr)])
           (if tr \<noteq> v then st\<lparr>translated_fields := translated_fields st + 1\<rparr>
            else st\<lparr>failed_fields := failed_fields st + 1\<rparr>) calls1"
    by (simp add: Let_def dict_set_absent)
  with v(1) True tr show ?thesis by (intro translated) auto
qed

lemma process_fields_frame:
  "\<exists>added st' calls'.
     process_fields p rest cur st calls = Some (Inr (), cur @ added, st', calls') \<and>
     (\<forall>kv \<in> set added. \<exists>k v t. (k, JStr v) \<in> set rest \<and> is_source_field (k, JStr v) \<and>
        kv = (k @ TRANSLATION_SUFFIX, JStr t) \<and> \<not> dict_has cur (k @ TRANSLATION_SUFFIX))"
proof (induction rest arbitrary: cur st calls)
  case Nil
  show ?case by (intro exI [of _ "[]"]) simp
next
  case (Cons kv rest)
  obtain key val where kv: "kv = (key, val)" by (cases kv)
  show ?case
  proof (cases rule: process_fields_step [of key val cur p rest st calls])
    case skip
    from Cons.IH [of cur "if is_source_field (key, val)
        then st\<lparr>skipped_fields := skipped_fields st + 1\<rparr> else st" calls]
    obtain added st' calls' where a:
      "process_fields p rest cur (if is_source_field (key, val)
        then st\<lparr>skipped_fields := skipped_fields st + 1\<rparr> else st) calls =
        Some (Inr (), cur @ added, st', calls')"
      "\<forall>kv \<in> set added. \<exists>k v t. (k, JStr v) \<in> set rest \<and> is_source_field (k, JStr v) \<and>
        kv = (k @ TRANSLATION_SUFFIX, JStr t) \<and> \<not> dict_has cur (k @ TRANSLATION_SUFFIX)"
      by blast
    from a(2) have "\<forall>kv' \<in> set added. \<exists>k v t. (k, JStr v) \<in> set (kv # rest) \<and>
        is_source_field (k, JStr v) \<and>
        kv' = (k @ TRANSLATION_SUFFIX, JStr t) \<and> \<not> dict_has cur (k @ TRANSLATION_SUFFIX)"
      by fastforce
    with a(1) skip(2) kv show ?thesis by auto
  next
    case (translated v tr calls1)
    let ?cur1 = "cur @ [(key @ TRANSLATION_SUFFIX, JStr tr)]"
    let ?st1 = "if tr \<noteq> v then st\<lparr>translated_fields := translated_fields st + 1\<rparr>
            else st\<lparr>failed_fields := failed_fields st + 1\<rparr>"
    from Cons.IH [of ?cur1 ?st1 calls1]
    obtain added st' calls' where a:
      "process_fields p rest ?cur1 ?st1 calls1 = Some (Inr (), ?cur1 @ added, st', calls')"
      "\<forall>kv \<in> set added. \<exists>k v t. (k, JStr v) \<in> set rest \<and> is_source_field (k, JStr v) \<and>
        kv = (k @ TRANSLATION_SUFFIX, JStr t) \<and> \<not> dict_has ?cur1 (k @ TRANSLATION_SUFFIX)"
      by blast
    have "\<forall>kv' \<in> set ((key @ TRANSLATION_SUFFIX, JStr tr) # added).
        \<exists>k v t. (k, JStr v) \<in> set (kv # rest) \<and> is_source_field (k, JStr v) \<and>
        kv' = (k @ TRANSLATION_SUFFIX, JStr t) \<and> \<not> dict_has cur (k @ TRANSLATION_SUFFIX)"
    proof
      fix kv' assume "kv' \<in> set ((key @ TRANSLATION_SUFFIX, JStr tr) # added)"
      then consider "kv' = (key @ TRANSLATION_SUFFIX, JStr tr)" | "kv' \<in> set added" by auto
      then show "\<exists>k v t. (k, JStr v) \<in> set (kv # rest) \<and> is_source_field (k, JStr v) \<and>
        kv' = (k @ TRANSLATION_SUFFIX, JStr t) \<and> \<not> dict_has cur (k @ TRANSLATION_SUFFIX)"
      proof cases
        case 1
        with translated(1,2,3) kv show ?thesis by auto
      next
        case 2
        with a(2) obtain k v' t where "(k, JStr v') \<in> set rest" "is_source_field (k, JStr v')"
          "kv' = (k @ TRANSLATION_SUFFIX, JStr t)" "\<not> dict_has ?cur1 (k @ TRANSLATION_SUFFIX)"
          by blast
        then show ?thesis by (auto simp: dict_has_append)
      qed
    qed
    with a(1) translated(5) kv show ?thesis
      by (intro exI [of _ "(key @ TRANSLATION_SUFFIX, JStr tr) # added"]) simp
  qed
qed

lemma dict_get_append_has: "dict_has d k \<Longrightarrow> dict_get (d @ e) k = dict_get d k"
  by (auto simp: dict_has_def dict_get_def map_add_def map_of_eq_None_iff split: option.splits)

lemma dict_get_appended: "\<not> dict_has d k \<Longrightarrow> dict_get (d @ [(k, x)]) k = Some x"
  by (auto simp: dict_has_def dict_get_def map_add_def map_of_eq_None_iff [symmetric]
      simp del: map_of_eq_None_iff)

lemmas record_eval =
  process_item_def endswith_def TRANSLATION_SUFFIX_def dict_has_def dict_get_def new_stats_def
  is_source_field_def

subsection \<open>C10: the translation pass only adds derived fields\<close>

text \<open>
  C10. For every record and every provider, \<open>_process_item\<close> returns with the record it
  was given followed by new entries: no key is deleted, every key already present keeps
  its value, and each new key is \<open>key + suffix\<close> for a source field \<open>key\<close> of the record
  whose derived key was absent.
\<close>

theorem process_item_only_adds:
  "\<exists>added st' calls'.
     process_item p item st calls = Some (Inr (), item @ added, st', calls') \<and>
     (\<forall>k. dict_has item k \<longrightarrow> dict_get (item @ added) k = dict_get item k) \<and>
     (\<forall>kv \<in> set added. \<exists>k v t. (k, JStr v) \<in> set item \<and> is_source_field (k, JStr v) \<and>
        kv = (k @ TRANSLATION_SUFFIX, JStr t) \<and> \<not> dict_has item (k @ TRANSLATION_SUFFIX))"
  using process_fields_frame [of p item item st calls]
  by (auto simp: process_item_def dict_get_append_has)

theorem process_item_only_adds_witness:
  "process_item (\<lambda>calls t. Inr (str ''Hello''))
     [(str ''title'', JStr (str ''abc'')), (str ''n'', JNum 3)] new_stats [] =
     Some (Inr (),
           [(str ''title'', JStr (str ''abc'')), (str ''n'', JNum 3)] @
           [(str ''title-en'', JStr (str ''Hello''))],
           new_stats\<lparr>translated_fields := 1\<rparr>, [str ''abc'']) \<and>
   dict_has [(str ''title'', JStr (str ''abc'')), (str ''n'', JNum 3)] (str ''title'') \<and>
   dict_get ([(str ''title'', JStr (str ''abc'')), (str ''n'', JNum 3)] @
             [(str ''title-en'', JStr (str ''Hello''))]) (str ''title'') =
     Some (JStr (str ''abc'')) \<and>
   is_source_field (str ''title'', JStr (str ''abc'')) \<and>
   \<not> dict_has [(str ''title'', JStr (str ''abc'')), (str ''n'', JNum 3)]
        (str ''title'' @ TRANSLATION_SUFFIX)"
  using process_item_only_adds [of "\<lambda>calls t. Inr (str ''Hello'')"
      "[(str ''title'', JStr (str ''abc'')), (str ''n'', JNum 3)]" new_stats "[]"]
  by (simp add: record_eval translate_eval)

lemma process_fields_all_skipped:
  assumes "\<forall>kv \<in> set rest. is_source_field kv \<longrightarrow> dict_has cur (fst kv @ TRANSLATION_SUFFIX)"
  shows "process_fields p rest cur st calls =
           Some (Inr (), cur,
                 st\<lparr>skipped_fields := skipped_fields st + length (filter is_source_field rest)\<rparr>,
                 calls)"
  using assms
proof (induction rest arbitrary: st)
  case Nil
  show ?case by simp
next
  case (Cons kv rest)
  obtain key val where kv: "kv = (key, val)" by (cases kv)
  from Cons.prems have rest: "\<forall>kv \<in> set rest. is_source_field kv \<longrightarrow>
      dict_has cur (fst kv @ TRANSLATION_SUFFIX)" by simp
  show ?case
  proof (cases rule: process_fields_step [of key val cur p rest st calls])
    case skip
    with Cons.IH [OF rest] kv show ?thesis by simp
  next
    case (translated v tr calls1)
    with Cons.prems kv show ?thesis by simp
  qed
qed

subsection \<open>C7: a second pass changes nothing\<close>

text \<open>
  C7, as stated, takes as eligible every field with a non-suffix key and a non-empty
  string value, and has every such field counted as skipped. A value of blanks only is
  a non-empty string, but the loop leaves it at the guard \<open>not value.strip()\<close>, before
  the counter: the record below has its one eligible field translated already, and the
  pass counts no skipped field.
\<close>

theorem blank_field_not_counted:
  "process_item (\<lambda>calls t. Inr t)
     [(str ''a'', JStr (str '' '')), (str ''a-en'', JStr (str ''x''))] new_stats [] =
     Some (Inr (), [(str ''a'', JStr (str '' '')), (str ''a-en'', JStr (str ''x''))],
           new_stats, []) \<and>
   \<not> endswith (str ''a'') TRANSLATION_SUFFIX \<and>
   str '' '' \<noteq> [] \<and>
   dict_has [(str ''a'', JStr (str '' '')), (str ''a-en'', JStr (str ''x''))]
     (str ''a'' @ TRANSLATION_SUFFIX) \<and>
   skipped_fields new_stats = 0"
  by (simp add: record_eval translate_eval)

text \<open>
  C7, amended: on a record in which every source field (non-suffix key, string value
  that is not blank) has its derived field present, \<open>_process_item\<close> changes nothing: the
  record is the same, no provider call is made, and each such field is counted as
  skipped.
\<close>

theorem process_item_idempotent:
  assumes "\<forall>kv \<in> set item. is_source_field kv \<longrightarrow> dict_has item (fst kv @ TRANSLATION_SUFFIX)"
  shows "process_item p item st calls =
           Some (Inr (), item,
                 st\<lparr>skipped_fields := skipped_fields st + length (filter is_source_field item)\<rparr>,
                 calls)"
  using process_fields_all_skipped [OF assms] by (simp add: process_item_def)

theorem process_item_idempotent_witness:
  "list_all (\<lambda>kv. \<not> is_source_field kv \<or>
       dict_has [(str ''title'', JStr (str ''abc'')), (str ''title-en'', JStr (str ''Hello'')),
                 (str ''n'', JNum 3)] (fst kv @ TRANSLATION_SUFFIX))
     [(str ''title'', JStr (str ''abc'')), (str ''title-en'', JStr (str ''Hello'')),
      (str ''n'', JNum 3)] \<and>
   process_item (\<lambda>calls t. Inr (str ''Bonjour''))
     [(str ''title'', JStr (str ''abc'')), (str ''title-en'', JStr (str ''Hello'')),
      (str ''n'', JNum 3)] new_stats [] =
     Some (Inr (),
           [(str ''title'', JStr (str ''abc'')), (str ''title-en'', JStr (str ''Hello'')),
            (str ''n'', JNum 3)],
           new_stats\<lparr>skipped_fields := 1\<rparr>, [])"
  using process_item_idempotent [of
      "[(str ''title'', JStr (str ''abc'')), (str ''title-en'', JStr (str ''Hello'')),
        (str ''n'', JNum 3)]" "\<lambda>calls t. Inr (str ''Bonjour'')" new_stats "[]"]
  by (simp add: record_eval translate_eval)

section \<open>Properties of the fixer of non-translatable fields\<close>

lemma map_of_dict_set_same: "map_of (dict_set d k v) k = Some v"
  by (induction d) auto

lemma map_of_dict_set_other: "k' \<noteq> k \<Longrightarrow> map_of (dict_set d k v) k' = map_of d k'"
  by (induction d) auto

lemma fix_fields_frame:
  "k \<notin> (\<lambda>kv. fst kv @ TRANSLATION_SUFFIX) ` set rest \<Longrightarrow>
   map_of (fst (fix_fields rest cur m n)) k = map_of cur k"
proof (induction rest arbitrary: cur m n)
  case Nil
  show ?case by simp
next
  case (Cons kv rest)
  obtain key val where kv: "kv = (key, val)" by (cases kv)
  from Cons.prems kv have ne: "k \<noteq> key @ TRANSLATION_SUFFIX"
    and rest: "k \<notin> (\<lambda>kv. fst kv @ TRANSLATION_SUFFIX) ` set rest"
    by auto
  show ?case
    unfolding kv
    by (cases val)
      (simp_all add: Let_def Cons.IH [OF rest] map_of_dict_set_other [OF ne])
qed

lemma fix_fields_sets:
  assumes "distinct (map fst rest)" and "(k, JStr v) \<in> set rest"
    and "\<not> endswith k TRANSLATION_SUFFIX"
    and "strip (lower v) \<in> set NON_TRANSLATABLE_VALUES"
  shows "map_of (fst (fix_fields rest cur m n)) (k @ TRANSLATION_SUFFIX) = Some (JStr v)"
  using assms(1,2)
proof (induction rest arbitrary: cur m n)
  case Nil
  then show ?case by simp
next
  case (Cons kv rest)
  obtain key val where kv: "kv = (key, val)" by (cases kv)
  show ?case
  proof (cases "kv = (k, JStr v)")
    case True
    with Cons.prems(1) have "k \<notin> fst ` set rest" by auto
    then have out: "k @ TRANSLATION_SUFFIX \<notin> (\<lambda>kv. fst kv @ TRANSLATION_SUFFIX) ` set rest"
      by auto
    from True assms(3,4) show ?thesis
      by (auto simp: Let_def fix_fields_frame [OF out] map_of_dict_set_same
            dict_get_def dict_has_def map_of_eq_None_iff [symmetric]
          simp del: map_of_eq_None_iff)
  next
    case False
    with Cons.prems have "distinct (map fst rest)" "(k, JStr v) \<in> set rest" by auto
    from Cons.IH [OF this] show ?thesis
      unfolding kv by (cases val) (simp_all add: Let_def)
  qed
qed

lemmas fix_eval =
  fix_item_def endswith_def TRANSLATION_SUFFIX_def dict_has_def dict_get_def lower_def
  NON_TRANSLATABLE_VALUES_def strip_def is_space_def str_def Let_def

text \<open>
  Every run of \<open>translate\<close> on a text that is not blank calls the provider at least once,
  and the log only grows.
\<close>

lemma translate_single_from_log:
  "attempt < MAX_RETRIES \<Longrightarrow>
   \<exists>sent. sent \<noteq> [] \<and> snd (translate_single_from p t attempt calls) = calls @ sent"
proof (induction "MAX_RETRIES - attempt" arbitrary: attempt calls)
  case 0
  then show ?case by simp
next
  case (Suc n)
  show ?case
  proof (cases "p calls t")
    case (Inr r)
    with Suc.prems show ?thesis
      by (subst translate_single_from.simps) (simp add: call_provider_def)
  next
    case (Inl e)
    show ?thesis
    proof (cases "attempt < MAX_RETRIES - 1")
      case False
      with Inl Suc.prems show ?thesis
        by (subst translate_single_from.simps) (simp add: call_provider_def)
    next
      case True
      from Suc.hyps(2) have "n = MAX_RETRIES - (attempt + 1)" by simp
      moreover from True have "attempt + 1 < MAX_RETRIES" by simp
      ultimately obtain sent where
        "snd (translate_single_from p t (attempt + 1) (calls @ [t])) = (calls @ [t]) @ sent"
        using Suc.hyps(1) by blast
      with Inl Suc.prems True show ?thesis
        by (subst translate_single_from.simps) (simp add: call_provider_def)
    qed
  qed
qed

lemma translate_chunk_from_log:
  "attempt < MAX_RETRIES \<Longrightarrow>
   \<exists>sent. sent \<noteq> [] \<and> snd (translate_chunk_from p c attempt tc calls) = calls @ sent"
proof (induction "MAX_RETRIES - attempt" arbitrary: attempt calls)
  case 0
  then show ?case by simp
next
  case (Suc n)
  show ?case
  proof (cases "p calls c")
    case (Inr r)
    with Suc.prems show ?thesis
      by (subst translate_chunk_from.simps) (simp add: call_provider_def)
  next
    case (Inl e)
    show ?thesis
    proof (cases "attempt < MAX_RETRIES - 1")
      case False
      with Inl Suc.prems show ?thesis
        by (subst translate_chunk_from.simps) (simp add: call_provider_def)
    next
      case True
      from Suc.hyps(2) have "n = MAX_RETRIES - (attempt + 1)" by simp
      moreover from True have "attempt + 1 < MAX_RETRIES" by simp
      ultimately obtain sent where
        "snd (translate_chunk_from p c (attempt + 1) tc (calls @ [c])) = (calls @ [c]) @ sent"
        using Suc.hyps(1) by blast
      with Inl Suc.prems True show ?thesis
        by (subst translate_chunk_from.simps) (simp add: call_provider_def)
    qed
  qed
qed

lemma translate_chunks_loop_log:
  "\<exists>sent. (cs \<noteq> [] \<longrightarrow> sent \<noteq> []) \<and> snd (translate_chunks_loop p cs tc calls) = calls @ sent"
proof (induction cs arbitrary: tc calls)
  case Nil
  show ?case by simp
next
  case (Cons c cs)
  obtain tc1 calls1 where one: "translate_chunk_from p c 0 tc calls = (tc1, calls1)"
    by (cases "translate_chunk_from p c 0 tc calls")
  have "0 < MAX_RETRIES" by (simp add: MAX_RETRIES_def)
  from translate_chunk_from_log [OF this, of p c tc calls] one
  obtain sent1 where sent1: "sent1 \<noteq> []" "calls1 = calls @ sent1" by auto
  from Cons.IH [of tc1 calls1]
  obtain sent2 where "snd (translate_chunks_loop p cs tc1 calls1) = calls1 @ sent2" by blast
  with one sent1 show ?case
    by (intro exI [of _ "sent1 @ sent2"]) simp
qed

lemma translate_log:
  assumes "strip t \<noteq> []" and "translate p t calls = Some (r, calls1)"
  shows "\<exists>sent. sent \<noteq> [] \<and> calls1 = calls @ sent"
proof -
  from assms(1) have ne: "t \<noteq> []" by (auto simp: strip_def)
  have pos: "(0::int) < MAX_CHUNK_SIZE" by (simp add: MAX_CHUNK_SIZE_def)
  from chunk_text_result [OF pos, of t]
  obtain cs where cs: "chunk_text t MAX_CHUNK_SIZE = Some cs" "concat cs = t" by blast
  from cs(2) ne have cs_ne: "cs \<noteq> []" by auto
  show ?thesis
  proof (cases "length cs = 1")
    case True
    have "0 < MAX_RETRIES" by (simp add: MAX_RETRIES_def)
    from translate_single_from_log [OF this, of p t calls]
    obtain sent where "sent \<noteq> []" "snd (translate_single_from p t 0 calls) = calls @ sent"
      by blast
    with assms ne cs(1) True show ?thesis
      by (auto simp: translate_def translate_single_def)
  next
    case False
    from translate_chunks_loop_log [of cs p "[]" calls] cs_ne
    obtain sent where "sent \<noteq> []" "snd (translate_chunks_loop p cs [] calls) = calls @ sent"
      by blast
    with assms ne cs(1) False show ?thesis
      by (auto simp: translate_def translate_chunks_def split: prod.splits)
  qed
qed

lemma process_fields_log:
  "process_fields p rest cur st calls = Some (r, cur', st', calls') \<Longrightarrow>
   \<exists>after. calls' = calls @ after"
proof (induction rest arbitrary: cur st calls)
  case Nil
  then show ?case by simp
next
  case (Cons kv0 rest)
  obtain key val where kv0: "kv0 = (key, val)" by (cases kv0)
  show ?case
  proof (cases rule: process_fields_step [of key val cur p rest st calls])
    case skip
    with Cons.prems kv0 Cons.IH show ?thesis by simp
  next
    case (translated v tr calls1)
    from translated(1,2) have "strip v \<noteq> []" by (simp add: is_source_field_def)
    from translate_log [OF this translated(4)]
    obtain sent where sent: "calls1 = calls @ sent" by blast
    from translated(5) Cons.prems kv0
    have "process_fields p rest (cur @ [(key @ TRANSLATION_SUFFIX, JStr tr)])
        (if tr \<noteq> v then st\<lparr>translated_fields := translated_fields st + 1\<rparr>
         else st\<lparr>failed_fields := failed_fields st + 1\<rparr>) calls1 =
        Some (r, cur', st', calls')"
      by simp
    from Cons.IH [OF this] obtain after where "calls' = calls1 @ after" by blast
    with sent show ?thesis by simp
  qed
qed

text \<open>
  A source field whose derived key is absent is translated when its turn comes: the
  provider is called, and what \<open>translate\<close> returns is the derived field at the end.
\<close>

lemma process_fields_translates:
  assumes "distinct (map fst rest)" and "(k, JStr v) \<in> set rest"
    and "is_source_field (k, JStr v)"
    and "\<not> dict_has cur (k @ TRANSLATION_SUFFIX)"
  shows "\<exists>cur' st' calls' pre sent after tr.
           process_fields p rest cur st calls = Some (Inr (), cur', st', calls') \<and>
           translate p v (calls @ pre) = Some (Inr tr, calls @ pre @ sent) \<and>
           sent \<noteq> [] \<and> calls' = calls @ pre @ sent @ after \<and>
           dict_get cur' (k @ TRANSLATION_SUFFIX) = Some (JStr tr)"
  using assms(1,2,4)
proof (induction rest arbitrary: cur st calls)
  case Nil
  then show ?case by simp
next
  case (Cons kv0 rest)
  obtain key val where kv0: "kv0 = (key, val)" by (cases kv0)
  from Cons.prems(1) kv0 have fresh: "key \<notin> fst ` set rest" and dist: "distinct (map fst rest)"
    by auto
  show ?case
  proof (cases "kv0 = (k, JStr v)")
    case True
    with kv0 have key: "key = k" and val: "val = JStr v" by auto
    show ?thesis
    proof (cases rule: process_fields_step [of key val cur p rest st calls])
      case skip
      with assms(3) Cons.prems(3) key val show ?thesis by simp
    next
      case (translated w tr calls1)
      with val have w: "w = v" by simp
      let ?cur1 = "cur @ [(key @ TRANSLATION_SUFFIX, JStr tr)]"
      let ?st1 = "if tr \<noteq> w then st\<lparr>translated_fields := translated_fields st + 1\<rparr>
            else st\<lparr>failed_fields := failed_fields st + 1\<rparr>"
      from assms(3) have "strip v \<noteq> []" by (simp add: is_source_field_def)
      from translate_log [OF this, of p calls "Inr tr" calls1] translated(4) w
      obtain sent where sent: "sent \<noteq> []" "calls1 = calls @ sent" by auto
      from process_fields_frame [of p rest ?cur1 ?st1 calls1]
      obtain added st' calls' where run:
        "process_fields p rest ?cur1 ?st1 calls1 = Some (Inr (), ?cur1 @ added, st', calls')"
        by blast
      from process_fields_log [OF run] obtain after where after: "calls' = calls1 @ after"
        by blast
      have "dict_get (?cur1 @ added) (key @ TRANSLATION_SUFFIX) =
          dict_get ?cur1 (key @ TRANSLATION_SUFFIX)"
        by (rule dict_get_append_has) (simp add: dict_has_def)
      with dict_get_appended [OF translated(3), of "JStr tr"]
      have got: "dict_get (?cur1 @ added) (k @ TRANSLATION_SUFFIX) = Some (JStr tr)"
        by (simp only: key)
      from translated(4) w sent(2)
      have tr: "translate p v (calls @ []) = Some (Inr tr, calls @ [] @ sent)" by simp
      from translated(5) run kv0
      have "process_fields p (kv0 # rest) cur st calls = Some (Inr (), ?cur1 @ added, st', calls')"
        by simp
      moreover from after sent(2) have "calls' = calls @ [] @ sent @ after" by simp
      ultimately show ?thesis using tr sent(1) got by blast
    qed
  next
    case False
    with Cons.prems(2) have inrest: "(k, JStr v) \<in> set rest" by simp
    with fresh have kne: "key \<noteq> k" by force
    show ?thesis
    proof (cases rule: process_fields_step [of key val cur p rest st calls])
      case skip
      from Cons.IH [OF dist inrest Cons.prems(3)] skip(2) kv0 show ?thesis by simp
    next
      case (translated w tr calls1)
      let ?cur1 = "cur @ [(key @ TRANSLATION_SUFFIX, JStr tr)]"
      let ?st1 = "if tr \<noteq> w then st\<lparr>translated_fields := translated_fields st + 1\<rparr>
            else st\<lparr>failed_fields := failed_fields st + 1\<rparr>"
      from translated(1,2) have "strip w \<noteq> []" by (simp add: is_source_field_def)
      from translate_log [OF this translated(4)]
      obtain sent0 where sent0: "calls1 = calls @ sent0" by blast
      from Cons.prems(3) kne have "\<not> dict_has ?cur1 (k @ TRANSLATION_SUFFIX)"
        by (simp add: dict_has_def)
      from Cons.IH [OF dist inrest this, of ?st1 calls1]
      obtain cur' st' calls' pre sent after tr' where IH:
        "process_fields p rest ?cur1 ?st1 calls1 = Some (Inr (), cur', st', calls')"
        "translate p v (calls1 @ pre) = Some (Inr tr', calls1 @ pre @ sent)"
        "sent \<noteq> []" "calls' = calls1 @ pre @ sent @ after"
        "dict_get cur' (k @ TRANSLATION_SUFFIX) = Some (JStr tr')"
        by blast
      from IH(1) translated(5) kv0
      have "process_fields p (kv0 # rest) cur st calls = Some (Inr (), cur', st', calls')"
        by simp
      moreover from IH(2) sent0
      have "translate p v (calls @ (sent0 @ pre)) = Some (Inr tr', calls @ (sent0 @ pre) @ sent)"
        by simp
      moreover from IH(4) sent0 have "calls' = calls @ (sent0 @ pre) @ sent @ after" by simp
      ultimately show ?thesis using IH(3,5) by blast
    qed
  qed
qed

text \<open>A value whose lowercased and trimmed form is one of the literals is not blank.\<close>

lemma strip_Nil_all_space: "strip s = [] \<Longrightarrow> \<forall>c \<in> set s. is_space c"
proof -
  assume "strip s = []"
  then have "dropWhile is_space (rev (dropWhile is_space s)) = []"
    by (simp add: strip_def)
  then have all: "\<forall>c \<in> set (dropWhile is_space s). is_space c"
    by (simp add: dropWhile_eq_Nil_conv)
  have "dropWhile is_space s = []"
  proof (rule ccontr)
    assume ne: "dropWhile is_space s \<noteq> []"
    then have "\<not> is_space (hd (dropWhile is_space s))" by (rule hd_dropWhile)
    moreover from ne have "hd (dropWhile is_space s) \<in> set (dropWhile is_space s)" by simp
    ultimately show False using all by blast
  qed
  then show ?thesis by (simp add: dropWhile_eq_Nil_conv)
qed

lemma literal_not_blank:
  assumes "strip (lower v) \<in> set NON_TRANSLATABLE_VALUES"
  shows "strip v \<noteq> []"
proof
  assume "strip v = []"
  then have "\<forall>c \<in> set v. is_space c" by (rule strip_Nil_all_space)
  then have "\<forall>c \<in> set v. \<not> (65 \<le> c \<and> c \<le> 90)" by (auto simp: is_space_def)
  then have "lower v = v" by (auto simp: lower_def intro: map_idI)
  with \<open>strip v = []\<close> assms have "[] \<in> set NON_TRANSLATABLE_VALUES" by simp
  then show False by (simp add: NON_TRANSLATABLE_VALUES_def str_def)
qed

subsection \<open>C6: non-translatable literals\<close>

text \<open>
  C6, as stated, has the processing of a record write a non-translatable literal to the
  derived field as it is, with no provider call, for every field of the record.
  \<open>_process_item\<close> has no such case: it sends the value \<open>true\<close> of the first record below
  to the provider and writes what the provider returns. And no pass derives a field
  from a key that ends in the suffix: the fixer leaves the second record, whose only
  field is \<open>flag-en\<close>, as it is.
\<close>

theorem process_item_translates_literal:
  "process_item (\<lambda>calls t. Inr (str ''True'')) [(str ''flag'', JStr (str ''true''))]
     new_stats [] =
     Some (Inr (),
           [(str ''flag'', JStr (str ''true'')), (str ''flag-en'', JStr (str ''True''))],
           new_stats\<lparr>translated_fields := 1\<rparr>, [str ''true'']) \<and>
   strip (lower (str ''true'')) \<in> set NON_TRANSLATABLE_VALUES \<and>
   endswith (str ''flag-en'') TRANSLATION_SUFFIX \<and>
   fix_item [(str ''flag-en'', JStr (str ''true''))] False 0 =
     ([(str ''flag-en'', JStr (str ''true''))], False, 0) \<and>
   \<not> dict_has [(str ''flag-en'', JStr (str ''true''))] (str ''flag-en'' @ TRANSLATION_SUFFIX)"
  by (simp add: record_eval translate_eval fix_eval)

text \<open>
  C6, amended: for every field with a non-suffix key whose value, lowercased and
  trimmed, is a non-translatable literal, (1) the pass of the fixer over the record (the
  loop of \<open>_fix_file\<close>) leaves a derived field that holds exactly the field's value, and
  makes no provider call: the log of the provider is as it was; (2) \<open>_process_item\<close>
  makes no exception for it: when the derived field is absent it runs \<open>translate\<close> on the
  value, which calls the provider at least once (the calls \<open>sent\<close>, after those, \<open>pre\<close>,
  made for earlier fields), and what \<open>translate\<close> returns is the derived field at the
  end. The keys of a record are distinct, as those of every \<open>dict\<close>.
\<close>

theorem fix_item_passthrough:
  assumes "distinct (map fst item)" and "(k, JStr v) \<in> set item"
    and "\<not> endswith k TRANSLATION_SUFFIX"
    and "strip (lower v) \<in> set NON_TRANSLATABLE_VALUES"
  shows "dict_get (fst (fix_item item m n)) (k @ TRANSLATION_SUFFIX) = Some (JStr v) \<and>
         fix_item_with_log item m n calls = (fix_item item m n, calls) \<and>
         (\<not> dict_has item (k @ TRANSLATION_SUFFIX) \<longrightarrow>
            (\<exists>item' st' calls' pre sent after tr.
               process_item p item st calls = Some (Inr (), item', st', calls') \<and>
               translate p v (calls @ pre) = Some (Inr tr, calls @ pre @ sent) \<and>
               sent \<noteq> [] \<and> calls' = calls @ pre @ sent @ after \<and>
               dict_get item' (k @ TRANSLATION_SUFFIX) = Some (JStr tr)))"
proof (intro conjI impI)
  show "dict_get (fst (fix_item item m n)) (k @ TRANSLATION_SUFFIX) = Some (JStr v)"
    using fix_fields_sets [OF assms] by (simp add: fix_item_def dict_get_def)
next
  show "fix_item_with_log item m n calls = (fix_item item m n, calls)"
    by (simp add: fix_item_with_log_def)
next
  assume absent: "\<not> dict_has item (k @ TRANSLATION_SUFFIX)"
  from literal_not_blank [OF assms(4)] assms(3) have "is_source_field (k, JStr v)"
    by (simp add: is_source_field_def)
  from process_fields_translates [OF assms(1,2) this absent, of p st calls]
  show "\<exists>item' st' calls' pre sent after tr.
      process_item p item st calls = Some (Inr (), item', st', calls') \<and>
      translate p v (calls @ pre) = Some (Inr tr, calls @ pre @ sent) \<and>
      sent \<noteq> [] \<and> calls' = calls @ pre @ sent @ after \<and>
      dict_get item' (k @ TRANSLATION_SUFFIX) = Some (JStr tr)"
    by (simp add: process_item_def)
qed

theorem fix_item_passthrough_witness:
  "distinct (map fst [(str ''flag'', JStr (str '' TRUE '')), (str ''flag-en'', JStr (str ''real''))]) \<and>
   \<not> endswith (str ''flag'') TRANSLATION_SUFFIX \<and>
   strip (lower (str '' TRUE '')) \<in> set NON_TRANSLATABLE_VALUES \<and>
   fix_item [(str ''flag'', JStr (str '' TRUE '')), (str ''flag-en'', JStr (str ''real''))]
     False 0 =
     ([(str ''flag'', JStr (str '' TRUE '')), (str ''flag-en'', JStr (str '' TRUE ''))],
      True, 1) \<and>
   dict_get
     (fst (fix_item [(str ''flag'', JStr (str '' TRUE '')), (str ''flag-en'', JStr (str ''real''))]
        False 0))
     (str ''flag'' @ TRANSLATION_SUFFIX) = Some (JStr (str '' TRUE '')) \<and>
   \<not> dict_has [(str ''flag'', JStr (str '' TRUE ''))] (str ''flag'' @ TRANSLATION_SUFFIX) \<and>
   fix_item_with_log [(str ''flag'', JStr (str '' TRUE ''))] False 0 [str ''x''] =
     (([(str ''flag'', JStr (str '' TRUE '')), (str ''flag-en'', JStr (str '' TRUE ''))],
       True, 1), [str ''x'']) \<and>
   process_item (\<lambda>calls t. Inr (str ''True'')) [(str ''flag'', JStr (str '' TRUE ''))]
     new_stats [str ''x''] =
     Some (Inr (),
           [(str ''flag'', JStr (str '' TRUE '')), (str ''flag-en'', JStr (str ''True''))],
           new_stats\<lparr>translated_fields := 1\<rparr>, [str ''x'', str '' TRUE '']) \<and>
   translate (\<lambda>calls t. Inr (str ''True'')) (str '' TRUE '') [str ''x''] =
     Some (Inr (str ''True''), [str ''x'', str '' TRUE ''])"
  using
    fix_item_passthrough [where item =
        "[(str ''flag'', JStr (str '' TRUE '')), (str ''flag-en'', JStr (str ''real''))]"
      and k = "str ''flag''" and v = "str '' TRUE ''" and m = False and n = 0
      and calls = "[str ''x'']" and p = "\<lambda>calls t. Inr (str ''True'')" and st = new_stats]
    fix_item_passthrough [where item = "[(str ''flag'', JStr (str '' TRUE ''))]"
      and k = "str ''flag''" and v = "str '' TRUE ''" and m = False and n = 0
      and calls = "[str ''x'']" and p = "\<lambda>calls t. Inr (str ''True'')" and st = new_stats]
  by (simp add: fix_eval fix_item_with_log_def record_eval translate_eval)

section \<open>A provider that returns its input\<close>

lemma strip_Nil: "strip [] = []"
  by (simp add: strip_def)

lemma length_join:
  "cs \<noteq> [] \<Longrightarrow> length (join sep cs) + length sep = length (concat cs) + length cs * length sep"
  by (induction sep cs rule: join.induct) auto

lemma translate_chunk_from_echo:
  assumes "\<forall>calls t. p calls t = Inr t"
  shows "translate_chunk_from p c 0 tc calls = (tc @ [c], calls @ [c])"
  using assms
  by (subst translate_chunk_from.simps) (simp add: call_provider_def MAX_RETRIES_def)

lemma translate_chunks_loop_echo:
  assumes "\<forall>calls t. p calls t = Inr t"
  shows "translate_chunks_loop p cs tc calls = (tc @ cs, calls @ cs)"
  by (induction cs arbitrary: tc calls) (simp_all add: translate_chunk_from_echo [OF assms])

lemma translate_echo_short:
  assumes "\<forall>calls t. p calls t = Inr t" and "strip v \<noteq> []"
    and "int (length v) \<le> MAX_CHUNK_SIZE"
  shows "translate p v calls = Some (Inr v, calls @ [v])"
proof -
  have "translate_single_from p v 0 calls = (Inr v, calls @ [v])"
    using assms(1)
    by (subst translate_single_from.simps) (simp add: call_provider_def MAX_RETRIES_def)
  with assms(2,3) show ?thesis
    by (auto simp: translate_def chunk_text_def translate_single_def strip_Nil)
qed

lemma translate_echo_long:
  assumes "\<forall>calls t. p calls t = Inr t" and "strip v \<noteq> []"
    and "\<not> int (length v) \<le> MAX_CHUNK_SIZE"
  shows "\<exists>cs. chunk_text v MAX_CHUNK_SIZE = Some cs \<and>
           translate p v calls = Some (Inr (join (str '' '') cs), calls @ cs) \<and>
           join (str '' '') cs \<noteq> v"
proof -
  have pos: "(0::int) < MAX_CHUNK_SIZE" by (simp add: MAX_CHUNK_SIZE_def)
  from chunk_text_result [OF pos, of v]
  obtain cs where cs: "chunk_text v MAX_CHUNK_SIZE = Some cs" "concat cs = v"
    "\<forall>c \<in> set cs. int (length c) \<le> MAX_CHUNK_SIZE"
    by blast
  from assms(3) pos have "v \<noteq> []" by auto
  with cs(2) have ne: "cs \<noteq> []" by auto
  have len: "length cs \<noteq> 1"
  proof
    assume "length cs = 1"
    then obtain c where "cs = [c]" by (cases cs) auto
    with cs(2,3) assms(3) show False by simp
  qed
  from ne have "length cs \<noteq> 0" by simp
  with len have two: "2 \<le> length cs" by arith
  from length_join [OF ne, of "str '' ''"] cs(2) two
  have "length (join (str '' '') cs) \<noteq> length v"
    by (auto simp: str_def)
  then have diff: "join (str '' '') cs \<noteq> v" by auto
  from assms(2) cs(1) len have "translate p v calls = Some (translate_chunks p cs calls)"
    by (auto simp: translate_def strip_Nil)
  with translate_chunks_loop_echo [OF assms(1), of cs "[]" calls]
  have "translate p v calls = Some (Inr (join (str '' '') cs), calls @ cs)"
    by (simp add: translate_chunks_def)
  with cs(1) diff show ?thesis by blast
qed

lemma process_fields_echo:
  assumes echo: "\<forall>calls t. p calls t = Inr t"
    and "distinct (map fst rest)"
    and "process_fields p rest cur st calls = Some (r, cur', st', calls')"
  shows "(\<forall>kv \<in> set rest. \<forall>v. to_translate cur kv \<and> snd kv = JStr v \<longrightarrow>
            (int (length v) \<le> MAX_CHUNK_SIZE \<longrightarrow>
               dict_get cur' (fst kv @ TRANSLATION_SUFFIX) = Some (JStr v)) \<and>
            (\<not> int (length v) \<le> MAX_CHUNK_SIZE \<longrightarrow>
               (\<exists>cs. chunk_text v MAX_CHUNK_SIZE = Some cs \<and>
                  dict_get cur' (fst kv @ TRANSLATION_SUFFIX) = Some (JStr (join (str '' '') cs)) \<and>
                  join (str '' '') cs \<noteq> v))) \<and>
         failed_fields st' = failed_fields st +
           length (filter (\<lambda>kv. to_translate cur kv \<and> fits_one_chunk kv) rest) \<and>
         translated_fields st' = translated_fields st +
           length (filter (\<lambda>kv. to_translate cur kv \<and> \<not> fits_one_chunk kv) rest)"
  using assms(2,3)
proof (induction rest arbitrary: cur st calls)
  case Nil
  then show ?case by simp
next
  case (Cons kv0 rest)
  obtain key val where kv0: "kv0 = (key, val)" by (cases kv0)
  from Cons.prems(1) kv0 have fresh: "key \<notin> fst ` set rest" and dist: "distinct (map fst rest)"
    by auto
  show ?case
  proof (cases rule: process_fields_step [of key val cur p rest st calls])
    case skip
    let ?st1 = "if is_source_field (key, val)
        then st\<lparr>skipped_fields := skipped_fields st + 1\<rparr> else st"
    from skip(2) Cons.prems(2) kv0
    have run: "process_fields p rest cur ?st1 calls = Some (r, cur', st', calls')" by simp
    from skip(1) have no: "\<not> to_translate cur (key, val)" by (simp add: to_translate_def)
    have same: "failed_fields ?st1 = failed_fields st"
      "translated_fields ?st1 = translated_fields st" by auto
    from Cons.IH [OF dist run] no same kv0 show ?thesis by auto
  next
    case (translated v tr calls1)
    let ?en = "key @ TRANSLATION_SUFFIX"
    let ?cur1 = "cur @ [(?en, JStr tr)]"
    let ?st1 = "if tr \<noteq> v then st\<lparr>translated_fields := translated_fields st + 1\<rparr>
            else st\<lparr>failed_fields := failed_fields st + 1\<rparr>"
    from translated(5) Cons.prems(2) kv0
    have run: "process_fields p rest ?cur1 ?st1 calls1 = Some (r, cur', st', calls')" by simp
    note IH = Cons.IH [OF dist run]
    from translated(2) have blank: "strip v \<noteq> []"
      by (simp add: is_source_field_def translated(1))
    have todo0: "to_translate cur (key, val)"
      using translated(2,3) by (simp add: to_translate_def)
    have same: "\<forall>kv \<in> set rest. to_translate ?cur1 kv = to_translate cur kv"
    proof
      fix kv assume "kv \<in> set rest"
      with fresh have "fst kv \<noteq> key" by auto
      then show "to_translate ?cur1 kv = to_translate cur kv"
        by (auto simp: to_translate_def dict_has_def)
    qed
    from process_fields_frame [of p rest ?cur1 ?st1 calls1] run
    obtain added where added: "cur' = ?cur1 @ added" by auto
    have "dict_get (?cur1 @ added) ?en = dict_get ?cur1 ?en"
      by (rule dict_get_append_has) (simp add: dict_has_def)
    with dict_get_appended [OF translated(3), of "JStr tr"] added
    have got: "dict_get cur' ?en = Some (JStr tr)"
      by (simp only:)
    have short: "int (length v) \<le> MAX_CHUNK_SIZE \<Longrightarrow> tr = v"
      using translate_echo_short [OF echo blank, of calls] translated(4) by simp
    have long: "\<not> int (length v) \<le> MAX_CHUNK_SIZE \<Longrightarrow>
        \<exists>cs. chunk_text v MAX_CHUNK_SIZE = Some cs \<and> tr = join (str '' '') cs \<and>
          join (str '' '') cs \<noteq> v"
      using translate_echo_long [OF echo blank, of calls] translated(4) by auto
    have fits: "fits_one_chunk (key, val) = (tr = v)"
      using short long by (auto simp: fits_one_chunk_def translated(1))
    have fields: "\<forall>kv \<in> set (kv0 # rest). \<forall>v. to_translate cur kv \<and> snd kv = JStr v \<longrightarrow>
            (int (length v) \<le> MAX_CHUNK_SIZE \<longrightarrow>
               dict_get cur' (fst kv @ TRANSLATION_SUFFIX) = Some (JStr v)) \<and>
            (\<not> int (length v) \<le> MAX_CHUNK_SIZE \<longrightarrow>
               (\<exists>cs. chunk_text v MAX_CHUNK_SIZE = Some cs \<and>
                  dict_get cur' (fst kv @ TRANSLATION_SUFFIX) = Some (JStr (join (str '' '') cs)) \<and>
                  join (str '' '') cs \<noteq> v))"
    proof (intro ballI allI impI)
      fix kv w
      assume kv: "kv \<in> set (kv0 # rest)" and h: "to_translate cur kv \<and> snd kv = JStr w"
      show "(int (length w) \<le> MAX_CHUNK_SIZE \<longrightarrow>
               dict_get cur' (fst kv @ TRANSLATION_SUFFIX) = Some (JStr w)) \<and>
            (\<not> int (length w) \<le> MAX_CHUNK_SIZE \<longrightarrow>
               (\<exists>cs. chunk_text w MAX_CHUNK_SIZE = Some cs \<and>
                  dict_get cur' (fst kv @ TRANSLATION_SUFFIX) = Some (JStr (join (str '' '') cs)) \<and>
                  join (str '' '') cs \<noteq> w))"
      proof (cases "kv = kv0")
        case True
        with h kv0 translated(1) have w: "w = v" by simp
        from True kv0 got short long show ?thesis unfolding w by auto
      next
        case False
        with kv have inrest: "kv \<in> set rest" by simp
        with same h have "to_translate ?cur1 kv \<and> snd kv = JStr w" by simp
        with IH inrest show ?thesis by blast
      qed
    qed
    have f1: "filter (\<lambda>kv. to_translate ?cur1 kv \<and> fits_one_chunk kv) rest =
        filter (\<lambda>kv. to_translate cur kv \<and> fits_one_chunk kv) rest"
      using same by (intro filter_cong) auto
    have f2: "filter (\<lambda>kv. to_translate ?cur1 kv \<and> \<not> fits_one_chunk kv) rest =
        filter (\<lambda>kv. to_translate cur kv \<and> \<not> fits_one_chunk kv) rest"
      using same by (intro filter_cong) auto
    from IH have c1: "failed_fields st' = failed_fields ?st1 +
           length (filter (\<lambda>kv. to_translate ?cur1 kv \<and> fits_one_chunk kv) rest)"
      and c2: "translated_fields st' = translated_fields ?st1 +
           length (filter (\<lambda>kv. to_translate ?cur1 kv \<and> \<not> fits_one_chunk kv) rest)"
      by blast+
    have counts: "failed_fields st' = failed_fields st +
           length (filter (\<lambda>kv. to_translate cur kv \<and> fits_one_chunk kv) (kv0 # rest))"
      "translated_fields st' = translated_fields st +
           length (filter (\<lambda>kv. to_translate cur kv \<and> \<not> fits_one_chunk kv) (kv0 # rest))"
      using c1 c2 todo0 fits unfolding f1 f2 kv0 by auto
    from fields counts show ?thesis by blast
  qed
qed

lemma rfind_from_absent: "c \<notin> set s \<Longrightarrow> rfind_from s (c # d) i found = found"
  by (induction s arbitrary: i found) auto

lemma rfind_absent: "c \<notin> set s \<Longrightarrow> rfind s (c # d) = - 1"
  by (simp add: rfind_def rfind_from_absent)

lemma chunk_text_no_delimiter:
  assumes "0 < m" and "m < int (length s)" and "int (length s) \<le> 2 * m"
    and "set s \<inter> {46, 1567, 33, 1548, 10} = {}"
  shows "chunk_text s m = Some [take (nat m) s, drop (nat m) s]"
proof -
  have "set (slice_to s m) \<subseteq> set s"
    using assms(1) by (auto simp: slice_to_def dest: in_set_takeD)
  with assms(4) have none: "set (slice_to s m) \<inter> {46, 1567, 33, 1548, 10} = {}" by blast
  have "\<forall>d \<in> set SENTENCE_DELIMITERS. rfind (slice_to s m) d = - 1"
    using none by (auto simp: SENTENCE_DELIMITERS_def intro!: rfind_absent)
  with assms(1) have "\<forall>d \<in> set SENTENCE_DELIMITERS. rfind (slice_to s m) d \<le> min_position m"
    by (auto simp: min_position_def)
  from hard_break_step(2) [OF assms(1,2) this, of "[]"]
  have "chunk_loop m s [] = chunk_loop m (drop (nat m) s) [take (nat m) s]" by simp
  also have "\<dots> = Some [take (nat m) s, drop (nat m) s]"
    using assms(1,2,3) by (subst chunk_loop.simps) auto
  finally show ?thesis using assms(2) by (simp add: chunk_text_def)
qed

lemma in_set_dropWhile: "x \<in> set ys \<Longrightarrow> \<not> P x \<Longrightarrow> x \<in> set (dropWhile P ys)"
  by (induction ys) auto

lemma strip_not_blank:
  assumes "x \<in> set s" and "\<not> is_space x"
  shows "strip s \<noteq> []"
proof -
  from in_set_dropWhile [of x s is_space] assms
  have "x \<in> set (rev (dropWhile is_space s))" by simp
  with in_set_dropWhile [of x "rev (dropWhile is_space s)" is_space] assms(2)
  show ?thesis by (auto simp: strip_def)
qed

lemma long_text_chunks:
  "chunk_text (replicate 501 97) MAX_CHUNK_SIZE = Some [replicate 500 97, [97]]"
proof -
  have "chunk_text (replicate 501 97) 500 =
      Some [take (nat 500) (replicate 501 97), drop (nat 500) (replicate 501 97)]"
    by (rule chunk_text_no_delimiter) simp_all
  also have "take (nat 500) (replicate 501 (97::nat)) = replicate 500 97"
    by simp
  also have "drop (nat 500) (replicate 501 (97::nat)) = replicate 1 97"
    by simp
  finally show ?thesis by (simp add: MAX_CHUNK_SIZE_def)
qed

lemma long_text_translate:
  "translate (\<lambda>calls t. Inr t) (replicate 501 97) [] =
     Some (Inr (replicate 500 97 @ str '' '' @ [97]), [replicate 500 97, [97]])"
proof -
  have "(97::nat) \<in> set (replicate 501 97)" by simp
  moreover have "\<not> is_space 97" by (simp add: is_space_def)
  ultimately have nonblank: "strip (replicate 501 97) \<noteq> []" by (rule strip_not_blank)
  note step = translate_chunk_from_echo [of "\<lambda>calls t. Inr t", simplified]
  from nonblank show ?thesis
    by (simp add: translate_def long_text_chunks translate_chunks_def step)
qed

subsection \<open>C3: the failure signature\<close>

text \<open>
  C3, as stated, covers values long enough to be split into several chunks. For those,
  \<open>_translate_chunks\<close> joins the chunks with a space, so the result is longer than the
  value even when the provider returns every chunk unchanged: a value of 501 letters,
  one more than \<open>MAX_CHUNK_SIZE\<close>, comes back as 500 letters, a space and one letter, and
  the field is counted as translated.
\<close>

theorem long_field_counted_translated:
  "process_item (\<lambda>calls t. Inr t) [(str ''note'', JStr (replicate 501 97))] new_stats [] =
     Some (Inr (),
           [(str ''note'', JStr (replicate 501 97)),
            (str ''note-en'', JStr (replicate 500 97 @ str '' '' @ [97]))],
           new_stats\<lparr>translated_fields := 1\<rparr>, [replicate 500 97, [97]]) \<and>
   replicate 500 97 @ str '' '' @ [97] \<noteq> replicate 501 (97::nat)"
proof -
  have "length (replicate 500 (97::nat) @ str '' '' @ [97]) \<noteq> length (replicate 501 (97::nat))"
    by (simp add: str_def)
  then have ne: "replicate 500 97 @ str '' '' @ [97] \<noteq> replicate 501 (97::nat)"
    by metis
  have "(97::nat) \<in> set (replicate 501 97)" by simp
  moreover have "\<not> is_space 97" by (simp add: is_space_def)
  ultimately have nonblank: "strip (replicate 501 97) \<noteq> []" by (rule strip_not_blank)
  have "process_item (\<lambda>calls t. Inr t) [(str ''note'', JStr (replicate 501 97))] new_stats [] =
     Some (Inr (),
           [(str ''note'', JStr (replicate 501 97)),
            (str ''note-en'', JStr (replicate 500 97 @ str '' '' @ [97]))],
           new_stats\<lparr>translated_fields := 1\<rparr>, [replicate 500 97, [97]])"
    using ne nonblank
    by (simp add: process_item_def long_text_translate dict_has_def new_stats_def Let_def
          endswith_def TRANSLATION_SUFFIX_def str_def)
  with ne show ?thesis by simp
qed

text \<open>
  C3, amended: if the provider always returns its input unchanged and never raises,
  then for every field that \<open>_process_item\<close> translates (a source field whose derived key
  was absent) and whose value is a single chunk, at most \<open>MAX_CHUNK_SIZE\<close> characters,
  the derived field ends up equal to the source value, and the field is counted as
  failed, not as translated. A longer value gets its chunks joined by single spaces,
  which differs from the value, and is counted as translated. The keys of a record are
  distinct, as those of every \<open>dict\<close>.
\<close>

theorem echo_provider_failure_signature:
  assumes "\<forall>calls t. p calls t = Inr t" and "distinct (map fst item)"
  shows "\<exists>item' st' calls'.
     process_item p item st calls = Some (Inr (), item', st', calls') \<and>
     (\<forall>kv \<in> set item. \<forall>v. to_translate item kv \<and> snd kv = JStr v \<longrightarrow>
        (int (length v) \<le> MAX_CHUNK_SIZE \<longrightarrow>
           dict_get item' (fst kv @ TRANSLATION_SUFFIX) = Some (JStr v)) \<and>
        (\<not> int (length v) \<le> MAX_CHUNK_SIZE \<longrightarrow>
           (\<exists>cs. chunk_text v MAX_CHUNK_SIZE = Some cs \<and>
              dict_get item' (fst kv @ TRANSLATION_SUFFIX) = Some (JStr (join (str '' '') cs)) \<and>
              join (str '' '') cs \<noteq> v))) \<and>
     failed_fields st' = failed_fields st +
       length (filter (\<lambda>kv. to_translate item kv \<and> fits_one_chunk kv) item) \<and>
     translated_fields st' = translated_fields st +
       length (filter (\<lambda>kv. to_translate item kv \<and> \<not> fits_one_chunk kv) item)"
proof -
  from process_fields_frame [of p item item st calls]
  obtain item' st' calls' where run:
    "process_fields p item item st calls = Some (Inr (), item', st', calls')"
    by blast
  from process_fields_echo [OF assms run] run show ?thesis
    unfolding process_item_def by blast
qed

theorem echo_provider_failure_signature_witness:
  "distinct (map fst [(str ''title'', JStr (str ''abc'')), (str ''n'', JNum 3)]) \<and>
   process_item (\<lambda>calls t. Inr t)
     [(str ''title'', JStr (str ''abc'')), (str ''n'', JNum 3)] new_stats [] =
     Some (Inr (),
           [(str ''title'', JStr (str ''abc'')), (str ''n'', JNum 3),
            (str ''title-en'', JStr (str ''abc''))],
           new_stats\<lparr>failed_fields := 1\<rparr>, [str ''abc'']) \<and>
   to_translate [(str ''title'', JStr (str ''abc'')), (str ''n'', JNum 3)]
     (str ''title'', JStr (str ''abc'')) \<and>
   int (length (str ''abc'')) \<le> MAX_CHUNK_SIZE \<and>
   dict_get [(str ''title'', JStr (str ''abc'')), (str ''n'', JNum 3),
             (str ''title-en'', JStr (str ''abc''))] (str ''title'' @ TRANSLATION_SUFFIX) =
     Some (JStr (str ''abc'')) \<and>
   filter (\<lambda>kv. to_translate [(str ''title'', JStr (str ''abc'')), (str ''n'', JNum 3)] kv \<and>
                fits_one_chunk kv)
     [(str ''title'', JStr (str ''abc'')), (str ''n'', JNum 3)] =
     [(str ''title'', JStr (str ''abc''))]"
  using echo_provider_failure_signature [of "\<lambda>calls t. Inr t"
      "[(str ''title'', JStr (str ''abc'')), (str ''n'', JNum 3)]" new_stats "[]"]
  by (simp add: record_eval translate_eval to_translate_def fits_one_chunk_def)

section \<open>Properties of the runners\<close>















lemmas file_eval =
  process_file_def retry_file_def write_json_def path_name_def is_surrogate_def record_eval
  translate_eval Let_def

subsection \<open>C9: when a file is written back\<close>




text \<open>
  A write that fails: the file holds a lone surrogate, the pass changes nothing, and
  \<open>json.dump\<close> raises after the file was opened. \<open>process_file\<close> reports the failure, and
  the file cannot be read any more.
\<close>

lemma process_file_write_fails:
  "map_option (\<lambda>(res, fs', calls'). (success res, error res, writes fs', contents fs' [str ''a.json'']))
     (process_file (\<lambda>calls t. Inr (str ''Hello'')) [str ''a.json'']
        \<lparr>contents = (\<lambda>q. if q = [str ''a.json'']
            then Some (JArr [JObj [(str ''t'', JStr [55296]), (str ''t-en'', JStr (str ''x''))]])
            else None),
         writes = [], on_write = (\<lambda>q. Completes)\<rparr> []) =
   Some (False, Some WriteError, [[str ''a.json'']], None)"
  by (simp add: file_eval)

end
